theory Spec2Isabelle
  imports Main
begin

section \<open>Text and Python's string operations\<close>

text \<open>
  The three scripts (\<^verbatim>\<open>refactor_parsers.py\<close>, \<^verbatim>\<open>refactor_parsers_phase2.py\<close>,
  \<^verbatim>\<open>refactor_to_lexeme.py\<close>) rewrite Rust source text with \<^verbatim>\<open>re.sub\<close>. A text is a
  \<open>string\<close>: a list of characters with code points below 256, which covers the ASCII
  sources the scripts are run on.

  \<open>strip l s\<close> removes the literal \<open>l\<close> from the front of \<open>s\<close> if it is there;
  \<open>contains l s\<close> is Python's \<^verbatim>\<open>l in s\<close>.
\<close>

fun strip :: "string \<Rightarrow> string \<Rightarrow> string option" where
  "strip [] s = Some s"
| "strip (c # cs) [] = None"
| "strip (c # cs) (x # xs) = (if c = x then strip cs xs else None)"

fun contains :: "string \<Rightarrow> string \<Rightarrow> bool" where
  "contains l [] = (l = [])"
| "contains l (x # xs) = (if strip l (x # xs) = None then contains l xs else True)"

subsection \<open>Character classes of the patterns\<close>

text \<open>
  \<^verbatim>\<open>\s\<close>, \<^verbatim>\<open>\w\<close> and \<^verbatim>\<open>\d\<close> are the classes of Python 3 for \<^verbatim>\<open>str\<close> patterns, cut down
  to code points below 256: \<^verbatim>\<open>\s\<close> is \<^verbatim>\<open>str.isspace\<close>, \<^verbatim>\<open>\w\<close> is
  \<^verbatim>\<open>str.isalnum\<close> or the underscore, \<^verbatim>\<open>\d\<close> is \<^verbatim>\<open>[0-9]\<close> there.
\<close>

definition is_space :: "char \<Rightarrow> bool" where
  "is_space c = (c \<in> set [CHR 0x20, CHR 0x0A, CHR 0x09, CHR 0x0D, CHR 0x0B, CHR 0x0C,
      CHR 0x1C, CHR 0x1D, CHR 0x1E, CHR 0x1F, CHR 0x85, CHR 0xA0])"

definition is_digit :: "char \<Rightarrow> bool" where
  "is_digit c = (c \<in> set ''0123456789'')"

definition is_upper_us :: "char \<Rightarrow> bool" where
  "is_upper_us c = (c \<in> set ''ABCDEFGHIJKLMNOPQRSTUVWXYZ_'')"

definition is_upper_us_colon :: "char \<Rightarrow> bool" where
  "is_upper_us_colon c = (is_upper_us c \<or> c = CHR '':'')"

definition is_word :: "char \<Rightarrow> bool" where
  "is_word c = (c \<in> set ''abcdefghijklmnopqrstuvwxyz'' \<or> is_upper_us c \<or> is_digit c \<or>
     c \<in> set [CHR 0xAA, CHR 0xB2, CHR 0xB3, CHR 0xB5, CHR 0xB9, CHR 0xBA, CHR 0xBC, CHR 0xBD,
       CHR 0xBE] \<or>
     (let n = (of_char c :: nat) in 0xC0 \<le> n \<and> n \<noteq> 0xD7 \<and> n \<noteq> 0xF7))"

definition not_char :: "char \<Rightarrow> char \<Rightarrow> bool" where
  "not_char x c = (c \<noteq> x)"

section \<open>The fragment of Python's \<^verbatim>\<open>re\<close> that the scripts use\<close>

text \<open>
  Every pattern of the three scripts is a sequence of: literal text, a character class
  under \<^verbatim>\<open>*\<close> or \<^verbatim>\<open>+\<close>, an optional character (\<^verbatim>\<open>,?\<close> and \<^verbatim>\<open>;?\<close>), an alternation
  of literals (\<^verbatim>\<open>(Ident|Number)\<close>), and capturing groups that are never nested. A pattern
  is the list of these atoms; \<open>GOpen\<close> and \<open>GClose\<close> are the brackets of a group.
\<close>

datatype atom =
    Lit string
  | Star "char \<Rightarrow> bool"
  | Plus "char \<Rightarrow> bool"
  | Opt char
  | OneOf "string list"
  | GOpen
  | GClose

type_synonym regex = "atom list"

text \<open>
  \<open>first_some f xs\<close> is the backtracking search: the result of the first alternative that
  succeeds. \<open>greedy c s\<close> lists what can be left of \<open>s\<close> after a run of characters of the
  class \<open>c\<close>, the longest run first, as a greedy quantifier tries them.
\<close>

fun first_some :: "('a \<Rightarrow> 'b option) \<Rightarrow> 'a list \<Rightarrow> 'b option" where
  "first_some f [] = None"
| "first_some f (x # xs) = (case f x of Some y \<Rightarrow> Some y | None \<Rightarrow> first_some f xs)"

fun greedy :: "(char \<Rightarrow> bool) \<Rightarrow> string \<Rightarrow> string list" where
  "greedy c [] = [[]]"
| "greedy c (x # xs) = (if c x then greedy c xs @ [x # xs] else [x # xs])"

text \<open>
  \<open>rmatch p s g caps\<close> matches the pattern \<open>p\<close> at the front of \<open>s\<close>, as \<^verbatim>\<open>re.match\<close>
  does: \<open>None\<close> if there is no match, otherwise the text after the match and the
  captured groups. \<open>g\<close> is the text that was left when the open group began, \<open>caps\<close> the
  groups closed so far.
\<close>

fun rmatch :: "regex \<Rightarrow> string \<Rightarrow> string \<Rightarrow> string list \<Rightarrow> (string \<times> string list) option" where
  "rmatch [] s g caps = Some (s, caps)"
| "rmatch (Lit l # r) s g caps =
     (case strip l s of Some s' \<Rightarrow> rmatch r s' g caps | None \<Rightarrow> None)"
| "rmatch (Star c # r) s g caps = first_some (\<lambda>s'. rmatch r s' g caps) (greedy c s)"
| "rmatch (Plus c # r) s g caps = first_some (\<lambda>s'. rmatch r s' g caps) (butlast (greedy c s))"
| "rmatch (Opt x # r) s g caps =
     first_some (\<lambda>s'. rmatch r s' g caps)
       (case strip [x] s of Some s' \<Rightarrow> [s', s] | None \<Rightarrow> [s])"
| "rmatch (OneOf ls # r) s g caps =
     first_some (\<lambda>l. case strip l s of Some s' \<Rightarrow> rmatch r s' g caps | None \<Rightarrow> None) ls"
| "rmatch (GOpen # r) s g caps = rmatch r s s caps"
| "rmatch (GClose # r) s g caps = rmatch r s g (caps @ [take (length g - length s) g])"

text \<open>
  A match object: the matched text (\<^verbatim>\<open>m.group(0)\<close>) and the groups (\<^verbatim>\<open>m.group(k)\<close>,
  \<open>k \<ge> 1\<close>). A replacement template is literal text and group references \<^verbatim>\<open>\k\<close>; the
  escape \<^verbatim>\<open>\n\<close> of a template is the newline character, and \<^verbatim>\<open>\'\<close> stays as the two
  characters backslash and quote (\<^verbatim>\<open>re\<close> leaves unknown non-letter escapes alone).
  Python rejects a template that names a group the pattern does not have before it
  matches anything; no template of the scripts does, and \<open>group\<close> gives the empty text
  there.
\<close>

datatype match_obj = Match (group0: string) (groups: "string list")

definition group :: "match_obj \<Rightarrow> nat \<Rightarrow> string" where
  "group m k = (if k = 0 then group0 m
     else if k \<le> length (groups m) then groups m ! (k - 1) else [])"

datatype titem = T string | G nat

type_synonym template = "titem list"

fun expand :: "template \<Rightarrow> match_obj \<Rightarrow> string" where
  "expand [] m = []"
| "expand (T s # t) m = s @ expand t m"
| "expand (G k # t) m = group m k @ expand t m"

text \<open>
  \<^verbatim>\<open>re.sub(pattern, repl, string, count)\<close> with a function \<open>repl\<close>: scan from the left,
  replace each match, go on behind it. \<open>lim\<close> is the number of replacements still allowed
  (\<open>None\<close>: no limit). A match of no characters is replaced and the scan moves one
  character on; no pattern of the scripts can match the empty text
  (lemma \<open>rmatch_shorter\<close> below), so that branch is never taken.
\<close>

fun dec :: "nat option \<Rightarrow> nat option" where
  "dec None = None"
| "dec (Some n) = Some (n - 1)"

function sub_from :: "regex \<Rightarrow> (match_obj \<Rightarrow> string) \<Rightarrow> nat option \<Rightarrow> string \<Rightarrow> string" where
  "sub_from p f lim s =
    (if lim = Some 0 then s
     else case rmatch p s s [] of
       Some (rest, caps) \<Rightarrow>
         if length rest < length s
         then f (Match (take (length s - length rest) s) caps) @ sub_from p f (dec lim) rest
         else (case s of
                 [] \<Rightarrow> f (Match [] caps)
               | x # xs \<Rightarrow> f (Match [] caps) @ x # sub_from p f (dec lim) xs)
     | None \<Rightarrow> (case s of [] \<Rightarrow> [] | x # xs \<Rightarrow> x # sub_from p f lim xs))"
  by pat_completeness auto
termination
  by (relation "measure (\<lambda>(p, f, lim, s). length s)") auto

declare sub_from.simps [simp del]

text \<open>
  \<^verbatim>\<open>re.sub(pattern, function, string)\<close>, \<^verbatim>\<open>re.sub(pattern, template, string)\<close> and
  \<^verbatim>\<open>re.sub(pattern, template, string, count=n)\<close>; Python's \<^verbatim>\<open>count=0\<close> is "no limit".
\<close>

definition re_sub_fn :: "regex \<Rightarrow> (match_obj \<Rightarrow> string) \<Rightarrow> string \<Rightarrow> string" where
  "re_sub_fn p f s = sub_from p f None s"

definition re_sub :: "regex \<Rightarrow> template \<Rightarrow> string \<Rightarrow> string" where
  "re_sub p t s = sub_from p (expand t) None s"

definition re_sub_count :: "regex \<Rightarrow> template \<Rightarrow> string \<Rightarrow> nat \<Rightarrow> string" where
  "re_sub_count p t s n = sub_from p (expand t) (if n = 0 then None else Some n) s"

section \<open>\<^verbatim>\<open>refactor_parsers.py\<close>\<close>

text \<open>
  The patterns and templates of \<^verbatim>\<open>refactor_content\<close>, in the order of the source and
  numbered as its comments number them. \<open>ws\<close> is \<^verbatim>\<open>\s*\<close>, \<open>ws1\<close> is \<^verbatim>\<open>\s+\<close>.
\<close>

abbreviation ws :: atom where "ws \<equiv> Star is_space"
abbreviation ws1 :: atom where "ws1 \<equiv> Plus is_space"

definition rc_pat1 :: regex where
  \<open>rc_pat1 = [Lit ''matches!(parser.peek(),'', ws, Lit ''Token::Feature('',
     GOpen, Plus is_upper_us, GClose, Lit ''))'']\<close>

definition rc_tpl1 :: template where
  \<open>rc_tpl1 = [T ''parser.peek().lexeme == '', G 1]\<close>

definition rc_pat2 :: regex where
  \<open>rc_pat2 = [Lit ''matches!(parser.peek(),'', ws, Lit ''Token::Feature(k)'', ws1, Lit ''if'',
     ws1, Lit ''*k'', ws1, Lit ''=='', ws1, GOpen, Plus is_upper_us, GClose, Lit '')'']\<close>

definition rc_tpl2 :: template where
  \<open>rc_tpl2 = [T ''parser.peek().lexeme == '', G 1]\<close>

definition rc_pat3 :: regex where
  \<open>rc_pat3 = [Lit ''matches!(parser.peek(),'', ws, Lit ''Token::Ident(_))'']\<close>

text \<open>The template of rule 3 is a raw string: its \<^verbatim>\<open>\'\<close> are backslash and quote.\<close>

definition rc_tpl3 :: template where
  \<open>rc_tpl3 = [T (''parser.peek().lexeme.chars().next().map_or(false, |c| c.is_alphabetic() || c == ''
     @ [CHR 0x5C, CHR 0x27, CHR ''_'', CHR 0x5C, CHR 0x27] @ '')'')]\<close>

definition rc_pat4 :: regex where
  \<open>rc_pat4 = [Lit ''matches!('', ws, Lit ''parser.peek(),'', ws, Lit ''Token::Ident('',
     Plus (not_char CHR '')''), Lit '')'', ws1, Lit ''if'', ws1, Plus is_word, ws1, Lit ''=='', ws1,
     Lit ''"'', GOpen, Plus (not_char CHR 0x22), GClose, Lit ''"'', ws, Lit '')'']\<close>

definition rc_tpl4 :: template where
  \<open>rc_tpl4 = [T ''parser.peek().lexeme == "'', G 1, T ''"'']\<close>

definition rc_pat5 :: regex where
  \<open>rc_pat5 = [Lit ''matches!(parser.peek(),'', ws, Lit ''Token::Number(_))'']\<close>

definition rc_tpl5 :: template where
  \<open>rc_tpl5 = [T ''parser.peek().lexeme.chars().next().map_or(false, |c| c.is_ascii_digit())'']\<close>

definition rc_pat6 :: regex where
  \<open>rc_pat6 = [Lit ''matches!(parser.peek(),'', ws, Lit ''Token::Feature(TRUE)'', ws, Lit ''|'', ws,
     Lit ''Token::Feature(FALSE))'']\<close>

definition rc_tpl6_lower :: template where
  \<open>rc_tpl6_lower = [T ''(parser.peek().lexeme == "true" || parser.peek().lexeme == "false")'']\<close>

definition rc_tpl6_upper :: template where
  \<open>rc_tpl6_upper = [T ''(parser.peek().lexeme == "TRUE" || parser.peek().lexeme == "FALSE")'']\<close>

definition rc_pat7_ident :: regex where
  \<open>rc_pat7_ident = [Lit ''match'', ws1, Lit ''parser.advance()'', ws, Lit ''{'', ws,
     Lit ''Token::Ident(s)'', ws, Lit ''=>'', ws, Lit ''s,'', ws, Lit ''_'', ws, Lit ''=>'', ws,
     Lit ''unreachable!()'', Opt CHR '','', ws, Lit ''}'']\<close>

definition rc_pat7_number :: regex where
  \<open>rc_pat7_number = [Lit ''match'', ws1, Lit ''parser.advance()'', ws, Lit ''{'', ws,
     Lit ''Token::Number(s)'', ws, Lit ''=>'', ws, Lit ''s,'', ws, Lit ''_'', ws, Lit ''=>'', ws,
     Lit ''unreachable!()'', Opt CHR '','', ws, Lit ''}'']\<close>

definition rc_tpl7 :: template where
  \<open>rc_tpl7 = [T ''parser.advance().lexeme'']\<close>

definition rc_pat8 :: regex where
  \<open>rc_pat8 = [Lit ''match'', ws1, Lit ''parser.advance()'', ws, Lit ''{'', ws,
     Lit ''Token::Feature(TRUE)'', ws, Lit ''=>'', ws, Lit ''Ok(Box::new(BoolLiteral'', ws,
     Lit ''{'', ws, Lit ''value:'', ws, Lit ''true'', ws, Lit ''})),'', ws,
     Lit ''Token::Feature(FALSE)'', ws, Lit ''=>'', ws, Lit ''Ok(Box::new(BoolLiteral'', ws,
     Lit ''{'', ws, Lit ''value:'', ws, Lit ''false'', ws, Lit ''})),'', ws,
     Lit ''_'', ws, Lit ''=>'', ws, Lit ''unreachable!()'', Opt CHR '','', ws, Lit ''}'']\<close>

definition rc_tpl8 :: template where
  \<open>rc_tpl8 = [T ''{ let value = parser.advance().lexeme == "true"; Ok(Box::new(BoolLiteral { value })) }'']\<close>

definition rc_pat9 :: regex where
  \<open>rc_pat9 = [Lit ''match'', ws1, Lit ''parser.advance()'', ws, Lit ''{'', ws,
     Lit ''Token::Feature(k)'', ws1, Lit ''if'', ws1, Lit ''k'', ws1, Lit ''=='', ws1,
     GOpen, Plus is_upper_us, GClose, ws, Lit ''=>'', ws, Lit ''{},'', ws, Lit ''_'', ws,
     Lit ''=>'', ws, Lit ''return'', ws1, Lit ''Err('', GOpen, Plus (not_char CHR '')''), GClose,
     Lit '')'', Opt CHR '','', ws, Lit ''}'']\<close>

definition rc_tpl9 :: template where
  \<open>rc_tpl9 = [T ''if parser.advance().lexeme != '', G 1, T '' { return Err('', G 2, T ''); }'']\<close>

definition rc_pat10 :: regex where
  \<open>rc_pat10 = [Lit ''parser.peek_n('', GOpen, Plus is_digit, GClose, Lit '').map_or(false,'', ws,
     Lit ''|t|'', ws, Lit ''matches!(t,'', ws, Lit ''Token::Feature('',
     GOpen, Plus is_upper_us, GClose, Lit '')))'']\<close>

definition rc_tpl10 :: template where
  \<open>rc_tpl10 = [T ''parser.peek_n('', G 1, T '').map_or(false, |t| t.lexeme == '', G 2, T '')'']\<close>

definition rc_pat11 :: regex where
  \<open>rc_pat11 = [Lit ''(Token::Ident(_),'', ws, Lit ''Some(Token::Feature('',
     GOpen, Plus is_upper_us, GClose, Lit '')))'']\<close>

definition rc_tpl11 :: template where
  \<open>rc_tpl11 = [T (''(tok, Some(next)) if tok.lexeme.chars().next().map_or(false, |c| c.is_alphabetic() || c == ''
     @ [CHR 0x5C, CHR 0x27, CHR ''_'', CHR 0x5C, CHR 0x27] @ '') && next.lexeme == ''), G 1]\<close>

definition rc_pat12 :: regex where
  \<open>rc_pat12 = [Lit ''use crate::kernel::lexer::Token;\<newline>'']\<close>

definition rc_pat13_keyword :: regex where
  \<open>rc_pat13_keyword = [ws, Lit ''reg.tokens.add_keyword('', Plus (not_char CHR '')''),
     Lit '');\<newline>'']\<close>

definition rc_pat13_single_char :: regex where
  \<open>rc_pat13_single_char = [ws, Lit ''reg.tokens.add_single_char('', Plus (not_char CHR '')''),
     Lit '');\<newline>'']\<close>

definition rc_pat13_two_char :: regex where
  \<open>rc_pat13_two_char = [ws, Lit ''reg.tokens.add_two_char('', Plus (not_char CHR '')''),
     Lit '');\<newline>'']\<close>

definition rc_pat14 :: regex where
  \<open>rc_pat14 = [GOpen, Lit ''pub fn register(reg: &mut Registry)'', ws, Lit ''{'', ws, GClose,
     Lit ''\<newline>'']\<close>

definition marker_line :: string where
  \<open>marker_line = ''    // No token registration needed - kernel handles all segmentation''\<close>

definition rc_tpl14 :: template where
  \<open>rc_tpl14 = [G 1, T ''\<newline>'', T marker_line, T ''\<newline>'']\<close>

definition rc_pat15_register :: regex where
  \<open>rc_pat15_register = [Lit ''// Register tokens'', ws, Lit ''\<newline>'', ws, Lit ''\<newline>'']\<close>

definition rc_pat15_definitions :: regex where
  \<open>rc_pat15_definitions = [Lit ''// Token definitions'', ws, Lit ''\<newline>'', ws, Lit ''\<newline>'', ws,
     Lit ''pub const'']\<close>

definition rc_tpl15_definitions :: template where
  \<open>rc_tpl15_definitions = [T ''pub const'']\<close>

text \<open>
  Rule 12 (``Remove Token enum import if no longer used'') and rule 14 (``Add comment for
  register functions that had token registration'') are the two guarded steps of
  \<^verbatim>\<open>refactor_content\<close>; they are named here, the function below calls them in place.
\<close>

definition remove_token_import :: "string \<Rightarrow> string" where
  \<open>remove_token_import content =
     (if \<not> contains ''Token::'' content \<and> contains ''use crate::kernel::lexer::Token;'' content
      then re_sub rc_pat12 [] content
      else content)\<close>

definition add_register_comment :: "string \<Rightarrow> string \<Rightarrow> string" where
  \<open>add_register_comment original content =
     (if contains ''pub fn register(reg: &mut Registry)'' content \<and> original \<noteq> content
      then (if \<not> contains ''// No token registration needed'' content
            then re_sub_count rc_pat14 rc_tpl14 content 1
            else content)
      else content)\<close>

definition refactor_content :: "string \<Rightarrow> string" where
  \<open>refactor_content original =
     (let content = original;
          content = re_sub rc_pat1 rc_tpl1 content;
          content = re_sub rc_pat2 rc_tpl2 content;
          content = re_sub rc_pat3 rc_tpl3 content;
          content = re_sub rc_pat4 rc_tpl4 content;
          content = re_sub rc_pat5 rc_tpl5 content;
          content = re_sub rc_pat6 rc_tpl6_lower content;
          content = re_sub rc_pat6 rc_tpl6_upper content;
          content = re_sub rc_pat7_ident rc_tpl7 content;
          content = re_sub rc_pat7_number rc_tpl7 content;
          content = re_sub rc_pat8 rc_tpl8 content;
          content = re_sub rc_pat9 rc_tpl9 content;
          content = re_sub rc_pat10 rc_tpl10 content;
          content = re_sub rc_pat11 rc_tpl11 content;
          content = remove_token_import content;
          content = re_sub rc_pat13_keyword [] content;
          content = re_sub rc_pat13_single_char [] content;
          content = re_sub rc_pat13_two_char [] content;
          content = add_register_comment original content;
          content = re_sub rc_pat15_register [] content;
          content = re_sub rc_pat15_definitions rc_tpl15_definitions content
      in content)\<close>

section \<open>\<^verbatim>\<open>refactor_parsers_phase2.py\<close>\<close>

text \<open>
  The patterns of \<^verbatim>\<open>refactor_content_phase2\<close>. Rule 1 is compiled with \<^verbatim>\<open>re.DOTALL\<close>,
  which changes only what \<^verbatim>\<open>.\<close> matches; the pattern has no \<^verbatim>\<open>.\<close>.
\<close>

definition p2_pat1 :: regex where
  \<open>p2_pat1 = [Lit ''match'', ws1, Lit ''parser.advance()'', ws, Lit ''{'', ws,
     Lit ''Token::Number(s)'', ws, Lit ''=>'', ws, Lit ''Ok('', GOpen, Plus (not_char CHR ''}''), GClose,
     Lit ''}),'', ws, Lit ''_'', ws, Lit ''=>'', ws, Lit ''unreachable!()'', Opt CHR '','', ws,
     Lit ''}'']\<close>

definition p2_tpl1 :: template where
  \<open>p2_tpl1 = [T ''let s = parser.advance().lexeme; Ok('', G 1, T ''})'']\<close>

definition p2_pat2 :: regex where
  \<open>p2_pat2 = [Lit ''match'', ws1, Lit ''parser.advance()'', ws, Lit ''{'', ws,
     Lit ''Token::Ident(s)'', ws, Lit ''=>'', ws, Lit ''s,'', ws, Lit ''_'', ws, Lit ''=>'', ws,
     Lit ''unreachable!()'', Opt CHR '','', ws, Lit ''}'']\<close>

definition p2_tpl2 :: template where
  \<open>p2_tpl2 = [T ''parser.advance().lexeme'']\<close>

definition p2_pat3 :: regex where
  \<open>p2_pat3 = [Lit ''match'', ws1, Lit ''parser.advance()'', ws, Lit ''{'', ws,
     Lit ''Token::Feature('', GOpen, Plus is_upper_us_colon, GClose, Lit '')'', ws, Lit ''=>'', ws,
     Lit ''{}'', Opt CHR '','', ws, Lit ''_'', ws, Lit ''=>'', ws, Lit ''return'', ws1,
     Lit ''Err('', GOpen, Plus (not_char CHR '')''), GClose, Lit '')'', Opt CHR '','', ws, Lit ''}'']\<close>

definition p2_tpl3 :: template where
  \<open>p2_tpl3 = [T ''if parser.advance().lexeme != '', G 1, T '' { return Err('', G 2, T ''); }'']\<close>

definition p2_pat4 :: regex where
  \<open>p2_pat4 = [Lit ''matches!(parser.peek(),'', ws, Lit ''Token::Feature(k)'', ws1, Lit ''if'', ws1,
     Lit ''*k'', ws1, Lit ''=='', ws1, GOpen, Plus is_upper_us, GClose, ws1, Lit ''||'', ws1,
     Lit ''*k'', ws1, Lit ''=='', ws1, GOpen, Plus is_upper_us, GClose, Lit '')'']\<close>

definition p2_tpl4 :: template where
  \<open>p2_tpl4 = [T ''(parser.peek().lexeme == '', G 1, T '' || parser.peek().lexeme == '', G 2, T '')'']\<close>

definition p2_pat5 :: regex where
  \<open>p2_pat5 = [Lit ''while'', ws1, Lit ''!matches!(parser.peek(),'', ws, Lit ''Token::Feature(k)'', ws1,
     Lit ''if'', ws1, Lit ''*k'', ws1, Lit ''=='', ws1, GOpen, Plus is_upper_us, GClose, ws1,
     Lit ''||'', ws1, Lit ''*k'', ws1, Lit ''=='', ws1, GOpen, Plus is_upper_us, GClose, Lit '')'']\<close>

definition p2_tpl5 :: template where
  \<open>p2_tpl5 = [T ''while parser.peek().lexeme != '', G 1, T '' && parser.peek().lexeme != '', G 2]\<close>

definition p2_pat6 :: regex where
  \<open>p2_pat6 = [GOpen, ws1, GClose, Lit ''Token::Feature('', GOpen, Plus is_upper_us_colon, GClose,
     Lit '')'', ws, Lit ''=>'', ws, Lit ''{}'']\<close>

definition p2_tpl6 :: template where
  \<open>p2_tpl6 = [G 1, T ''_ if parser.peek().lexeme == '', G 2, T '' => {}'']\<close>

definition p2_pat7 :: regex where
  \<open>p2_pat7 = [Lit ''tok:'', ws, Lit ''Token::Feature('', GOpen, Plus is_upper_us, GClose, Lit '')'']\<close>

definition p2_tpl7 :: template where
  \<open>p2_tpl7 = [T ''tok: Token::new('', G 1, T ''.to_string())'']\<close>

definition refactor_content_phase2 :: "string \<Rightarrow> string" where
  \<open>refactor_content_phase2 original =
     (let content = original;
          content = re_sub p2_pat1 p2_tpl1 content;
          content = re_sub p2_pat2 p2_tpl2 content;
          content = re_sub p2_pat3 p2_tpl3 content;
          content = re_sub p2_pat4 p2_tpl4 content;
          content = re_sub p2_pat5 p2_tpl5 content;
          content = re_sub p2_pat6 p2_tpl6 content;
          content = re_sub p2_pat7 p2_tpl7 content
      in content)\<close>

section \<open>\<^verbatim>\<open>refactor_to_lexeme.py\<close>: the text transformations\<close>

definition LANG_LEXEMES :: "(string \<times> string list) list" where
  \<open>LANG_LEXEMES =
    [(''mini_rust'', [''=='', ''!='', ''<='', ''>='', ''&&'', ''||'', '':='',
        ''let'', ''if'', ''else'', ''while'', ''break'', ''continue'', ''print'', ''true'', ''false'']),
     (''mini_c'', [''=='', ''!='', ''<='', ''>='',
        ''and'', ''or'', ''not'', ''if'', ''else'', ''while'', ''break'', ''continue'', ''printf'',
        ''true'', ''false'']),
     (''mini_php'', [''=='', ''!='', ''<='', ''>='', ''==='', ''!=='',
        ''and'', ''or'', ''not'', ''if'', ''else'', ''while'', ''break'', ''continue'', ''echo'',
        ''true'', ''false'']),
     (''mini_sh'', [''=='', ''!='', ''<='', ''>='',
        ''and'', ''or'', ''not'', ''if'', ''else'', ''while'', ''break'', ''continue'', ''echo'',
        ''true'', ''false'']),
     (''mini_apple_basic'', [''=='', ''!='', ''<='', ''>='',
        ''AND'', ''OR'', ''NOT'', ''IF'', ''ELSE'', ''WHILE'', ''BREAK'', ''CONTINUE'', ''PRINT'',
        ''TRUE'', ''FALSE'']),
     (''mini_apple_pascal'', [''=='', ''!='', ''<='', ''>='', '':='',
        ''and'', ''or'', ''not'', ''if'', ''else'', ''while'', ''break'', ''continue'', ''writeln'',
        ''true'', ''false''])]\<close>

definition lx_pat1 :: regex where
  \<open>lx_pat1 = [Lit ''matches!(parser.peek(),'', ws, Lit ''Token::Feature('',
     GOpen, Plus is_upper_us, GClose, Lit ''))'']\<close>

definition lx_pat2 :: regex where
  \<open>lx_pat2 = [Lit ''matches!(parser.peek(),'', ws, Lit ''Token::Feature(k)'', ws1, Lit ''if'',
     ws1, Lit ''*k'', ws1, Lit ''=='', ws1, GOpen, Plus is_upper_us, GClose, Lit '')'']\<close>

definition lx_pat3 :: regex where
  \<open>lx_pat3 = [Lit ''matches!(parser.peek(),'', ws, Lit ''Token::Ident(_))'']\<close>

text \<open>
  The replacements of patterns 3 and 5 are ordinary string literals here: \<^verbatim>\<open>\'\<close> is a
  quote, and the text has no backslash for \<^verbatim>\<open>re\<close> to interpret.
\<close>

definition lx_tpl3 :: template where
  \<open>lx_tpl3 = [T (''parser.peek().lexeme.chars().next().map_or(false, |c| c.is_alphabetic() || c == ''
     @ [CHR 0x27, CHR ''_'', CHR 0x27] @ '')'')]\<close>

definition lx_pat4 :: regex where
  \<open>lx_pat4 = [Lit ''matches!(parser.peek(),'', ws, Lit ''Token::Ident('',
     Plus (not_char CHR '')''), Lit '')'', ws1, Lit ''if'', ws1, Plus is_word, ws1, Lit ''=='', ws1,
     Lit ''"'', GOpen, Plus (not_char CHR 0x22), GClose, Lit ''")'']\<close>

definition lx_pat5 :: regex where
  \<open>lx_pat5 = [Lit ''matches!(parser.peek(),'', ws, Lit ''Token::Number(_))'']\<close>

definition lx_tpl5 :: template where
  \<open>lx_tpl5 = [T ''parser.peek().lexeme.chars().next().map_or(false, |c| c.is_ascii_digit())'']\<close>

text \<open>Pattern 6 is compiled with \<^verbatim>\<open>re.DOTALL\<close> and has no \<^verbatim>\<open>.\<close> either.\<close>

definition lx_pat6 :: regex where
  \<open>lx_pat6 = [Lit ''match'', ws1, Lit ''parser.advance()'', ws, Lit ''{'',
     GOpen, Plus (not_char CHR ''}''), GClose, Lit ''}'']\<close>

definition lx_pat_arm :: regex where
  \<open>lx_pat_arm = [Lit ''Token::Feature(k)'', ws1, Lit ''if'', ws1, Lit ''k'', ws1, Lit ''=='', ws1,
     GOpen, Plus is_upper_us, GClose]\<close>

definition lx_tpl_arm :: template where
  \<open>lx_tpl_arm = [T ''_ if parser.peek().lexeme == '', G 1]\<close>

definition refactor_match_advance :: "match_obj \<Rightarrow> string" where
  \<open>refactor_match_advance match_block =
     (let content = group match_block 0;
          content = re_sub lx_pat_arm lx_tpl_arm content
      in content)\<close>

definition lx_pat7 :: regex where
  \<open>lx_pat7 = [Lit ''match'', ws1, Lit ''parser.advance()'', ws, Lit ''{'', ws, Lit ''Token::'',
     GOpen, OneOf [''Ident'', ''Number''], GClose, Lit ''(s)'', ws, Lit ''=>'', ws, Lit ''s,'']\<close>

definition lx_tpl7 :: template where
  \<open>lx_tpl7 = [T ''let lexeme = parser.advance().lexeme;'']\<close>

definition lx_pat8 :: regex where
  \<open>lx_pat8 = [Lit ''match'', ws1, Lit ''parser.advance()'', ws, Lit ''{'', ws,
     Lit ''Token::Feature(k)'', ws1, Lit ''if'', ws1, Lit ''k'', ws1, Lit ''=='', ws1,
     GOpen, Plus is_upper_us, GClose, ws, Lit ''=>'', ws, Lit ''{}'']\<close>

definition lx_pat9 :: regex where
  \<open>lx_pat9 = [Lit ''parser.peek_n('', GOpen, Plus is_digit, GClose, Lit '').map_or(false,'', ws,
     Lit ''|t|'', ws, Lit ''matches!(t,'', ws, Lit ''Token::Feature('',
     GOpen, Plus is_upper_us, GClose, Lit '')))'']\<close>

definition refactor_token_matches :: "string \<Rightarrow> string" where
  \<open>refactor_token_matches original =
     (let content = original;
          content = re_sub_fn lx_pat1 (\<lambda>m. ''parser.peek().lexeme == '' @ group m 1) content;
          content = re_sub_fn lx_pat2 (\<lambda>m. ''parser.peek().lexeme == '' @ group m 1) content;
          content = re_sub lx_pat3 lx_tpl3 content;
          content = re_sub_fn lx_pat4 (\<lambda>m. ''parser.peek().lexeme == "'' @ group m 1 @ ''"'') content;
          content = re_sub lx_pat5 lx_tpl5 content;
          content = re_sub_fn lx_pat6 refactor_match_advance content;
          content = re_sub lx_pat7 lx_tpl7 content;
          content = re_sub_fn lx_pat8 (\<lambda>m. ''if parser.advance().lexeme != '' @ group m 1 @ '' {'') content;
          content = re_sub_fn lx_pat9
            (\<lambda>m. ''parser.peek_n('' @ group m 1 @ '').map_or(false, |t| t.lexeme == '' @ group m 2 @ '')'')
            content
      in content)\<close>

definition lx_pat_keyword :: regex where
  \<open>lx_pat_keyword = [ws, Lit ''reg.tokens.add_keyword('', Plus (not_char CHR '')''), Lit '')'',
     Opt CHR '';'', Lit ''\<newline>'']\<close>

definition lx_pat_single_char :: regex where
  \<open>lx_pat_single_char = [ws, Lit ''reg.tokens.add_single_char('', Plus (not_char CHR '')''), Lit '')'',
     Opt CHR '';'', Lit ''\<newline>'']\<close>

definition lx_pat_two_char :: regex where
  \<open>lx_pat_two_char = [ws, Lit ''reg.tokens.add_two_char('', Plus (not_char CHR '')''), Lit '')'',
     Opt CHR '';'', Lit ''\<newline>'']\<close>

definition remove_token_registration :: "string \<Rightarrow> string" where
  \<open>remove_token_registration original =
     (let content = original;
          content = re_sub lx_pat_keyword [] content;
          content = re_sub lx_pat_single_char [] content;
          content = re_sub lx_pat_two_char [] content
      in content)\<close>

definition lx_pat_register_all :: regex where
  \<open>lx_pat_register_all = [GOpen, Lit ''pub fn register_all('', Plus (not_char CHR '')''), Lit '') {'',
     ws, Lit ''\<newline>'', GClose]\<close>

definition lx_pat_register :: regex where
  \<open>lx_pat_register = [GOpen, Lit ''pub fn register(reg: &mut Registry) {'', ws, Lit ''\<newline>'',
     GClose]\<close>

definition lx_tpl_register :: template where
  \<open>lx_tpl_register = [G 1, T marker_line, T ''\<newline>'']\<close>

text \<open>\<^verbatim>\<open>sep.join(xs)\<close>.\<close>

fun join :: "string \<Rightarrow> string list \<Rightarrow> string" where
  "join sep [] = []"
| "join sep [x] = x"
| "join sep (x # y # ys) = x @ sep @ join sep (y # ys)"

text \<open>
  The block that \<^verbatim>\<open>update_dispatcher\<close> inserts: the f-string \<^verbatim>\<open>registration\<close>, built
  from the module's lexemes in the order of the table.
\<close>

definition registration :: "string list \<Rightarrow> string" where
  \<open>registration lexemes =
     (let lexeme_list = join '',\<newline>        '' (map (\<lambda>lex. ''"'' @ lex @ ''"'') lexemes)
      in ''    // Register multi-character lexemes for maximal-munch segmentation\<newline>'' @
         ''    // The kernel lexer will use these for pure lossless ASCII segmentation\<newline>'' @
         ''    registry.tokens.set_multichar_lexemes(vec![\<newline>'' @
         ''        '' @ lexeme_list @ '',\<newline>'' @
         ''    ]);\<newline>'' @
         ''\<newline>'')\<close>

section \<open>The file system the drivers run on\<close>

text \<open>
  The scripts touch the outside world through \<^verbatim>\<open>Path.exists\<close>, \<^verbatim>\<open>Path.rglob\<close>,
  \<^verbatim>\<open>Path.read_text\<close>, \<^verbatim>\<open>Path.write_text\<close> and \<^verbatim>\<open>print\<close>. A \<open>world\<close> holds the
  directories and the regular files of the tree, in the order in which the directory walk
  yields them, and the trace of the calls made so far. A file may refuse to be read or
  written (permissions, encoding): \<open>read_error\<close> and \<open>write_error\<close> hold the message of
  the exception that \<^verbatim>\<open>read_text\<close> and \<^verbatim>\<open>write_text\<close> raise for it. The scripts never
  look at the class of an exception, only at its message (\<^verbatim>\<open>except Exception as e\<close>), so
  one constructor carries them all.
\<close>

datatype py_error = OSError (message: string)

record fnode =
  contents :: string
  read_error :: "string option"
  write_error :: "string option"

datatype node = Dir | File fnode

datatype event = Read_text string | Write_text string string | Print string

record world =
  entries :: "(string \<times> node) list"
  trace :: "event list"

definition emit :: "event \<Rightarrow> world \<Rightarrow> world" where
  "emit e w = w\<lparr>trace := trace w @ [e]\<rparr>"

definition py_print :: "string \<Rightarrow> world \<Rightarrow> world" where
  "py_print line w = emit (Print line) w"

definition path_exists :: "world \<Rightarrow> string \<Rightarrow> bool" where
  "path_exists w p = (map_of (entries w) p \<noteq> None)"

text \<open>
  \<^verbatim>\<open>read_text\<close> opens the file in text mode with universal newlines: every \<^verbatim>\<open>\r\n\<close> and
  every other \<^verbatim>\<open>\r\<close> of the file is a \<^verbatim>\<open>\n\<close> of the text it returns. \<^verbatim>\<open>write_text\<close>
  stores the text as it is (the paths of the scripts are POSIX paths, where the line
  separator is \<^verbatim>\<open>\n\<close>).
\<close>

fun universal_newlines :: "string \<Rightarrow> string" where
  "universal_newlines [] = []"
| "universal_newlines [c] = [if c = CHR 0x0D then CHR 0x0A else c]"
| "universal_newlines (c # d # cs) =
     (if c = CHR 0x0D \<and> d = CHR 0x0A then CHR 0x0A # universal_newlines cs
      else (if c = CHR 0x0D then CHR 0x0A else c) # universal_newlines (d # cs))"

text \<open>
  The messages of the exceptions for a path that is absent (in a directory that exists)
  and for a path that is a directory, as \<^verbatim>\<open>str\<close> gives them: the error number, its text
  and the \<^verbatim>\<open>repr\<close> of the path, which for a path without quotes, backslashes and
  unprintable characters is the path between single quotes. \<^verbatim>\<open>write_text\<close> creates a file
  that is absent; the scripts write only paths that they have just read.
\<close>

definition quoted :: "string \<Rightarrow> string" where
  "quoted p = [CHR 0x27] @ p @ [CHR 0x27]"

definition no_such_file :: "string \<Rightarrow> py_error" where
  "no_such_file p = OSError (''[Errno 2] No such file or directory: '' @ quoted p)"

definition is_a_directory :: "string \<Rightarrow> py_error" where
  "is_a_directory p = OSError (''[Errno 21] Is a directory: '' @ quoted p)"

definition read_text :: "string \<Rightarrow> world \<Rightarrow> (py_error + string) \<times> world" where
  "read_text p w =
     (case map_of (entries w) p of
        None \<Rightarrow> (Inl (no_such_file p), emit (Read_text p) w)
      | Some Dir \<Rightarrow> (Inl (is_a_directory p), emit (Read_text p) w)
      | Some (File f) \<Rightarrow>
          (case read_error f of
             Some msg \<Rightarrow> (Inl (OSError msg), emit (Read_text p) w)
           | None \<Rightarrow> (Inr (universal_newlines (contents f)), emit (Read_text p) w)))"

fun set_text :: "string \<Rightarrow> string \<Rightarrow> (string \<times> node) list \<Rightarrow> (string \<times> node) list" where
  "set_text p t [] = [(p, File \<lparr>contents = t, read_error = None, write_error = None\<rparr>)]"
| "set_text p t ((q, n) # es) =
     (if q = p then (q, (case n of File f \<Rightarrow> File (f\<lparr>contents := t\<rparr>) | Dir \<Rightarrow> Dir)) # es
      else (q, n) # set_text p t es)"

definition write_text :: "string \<Rightarrow> string \<Rightarrow> world \<Rightarrow> (py_error + unit) \<times> world" where
  "write_text p t w =
     (case map_of (entries w) p of
        None \<Rightarrow> (Inr (), emit (Write_text p t) (w\<lparr>entries := set_text p t (entries w)\<rparr>))
      | Some Dir \<Rightarrow> (Inl (is_a_directory p), emit (Write_text p t) w)
      | Some (File f) \<Rightarrow>
          (case write_error f of
             Some msg \<Rightarrow> (Inl (OSError msg), emit (Write_text p t) w)
           | None \<Rightarrow> (Inr (), emit (Write_text p t) (w\<lparr>entries := set_text p t (entries w)\<rparr>))))"

definition starts_with :: "string \<Rightarrow> string \<Rightarrow> bool" where
  "starts_with l s = (strip l s \<noteq> None)"

definition ends_with :: "string \<Rightarrow> string \<Rightarrow> bool" where
  "ends_with l s = starts_with (rev l) (rev s)"

text \<open>
  \<^verbatim>\<open>lang_path.rglob('*.rs')\<close>: the paths below the directory whose name ends in \<^verbatim>\<open>.rs\<close>,
  regular files and directories alike.
\<close>

definition rglob_rs :: "world \<Rightarrow> string \<Rightarrow> string list" where
  "rglob_rs w d = filter (\<lambda>p. starts_with (d @ ''/'') p \<and> ends_with ''.rs'' p) (map fst (entries w))"

definition base :: string where
  "base = ''/home/user/lumen-lang''"

text \<open>\<^verbatim>\<open>str(n)\<close> for the counters of the summary line.\<close>

function str_nat :: "nat \<Rightarrow> string" where
  "str_nat n = (if n < 10 then [''0123456789'' ! n] else str_nat (n div 10) @ [''0123456789'' ! (n mod 10)])"
  by pat_completeness auto
termination
  by (relation "measure id") auto

declare str_nat.simps [simp del]

text \<open>The check marks that \<^verbatim>\<open>process_file\<close> prints, U+2713 and U+2717, as their UTF-8 bytes.\<close>

definition tick :: string where
  "tick = [CHR 0xE2, CHR 0x9C, CHR 0x93]"

definition cross :: string where
  "cross = [CHR 0xE2, CHR 0x9C, CHR 0x97]"

section \<open>The drivers of \<^verbatim>\<open>refactor_parsers.py\<close> and \<^verbatim>\<open>refactor_parsers_phase2.py\<close>\<close>

text \<open>
  \<^verbatim>\<open>process_file\<close> is the same function in both scripts but for the transformation it
  calls; \<open>process_file_with\<close> takes that as \<open>refactor\<close>. The \<^verbatim>\<open>try\<close> covers the read, the
  transformation and the write; \<^verbatim>\<open>except Exception\<close> prints the path and the message
  and returns \<^verbatim>\<open>False\<close>.
\<close>

definition process_file_with :: "(string \<Rightarrow> string) \<Rightarrow> string \<Rightarrow> world \<Rightarrow> bool \<times> world" where
  "process_file_with refactor filepath w =
     (case read_text filepath w of
        (Inl e, w1) \<Rightarrow> (False, py_print (cross @ '' '' @ filepath @ '': '' @ message e) w1)
      | (Inr content, w1) \<Rightarrow>
          (let refactored = refactor content in
           if refactored \<noteq> content then
             (case write_text filepath refactored w1 of
                (Inl e, w2) \<Rightarrow> (False, py_print (cross @ '' '' @ filepath @ '': '' @ message e) w2)
              | (Inr u, w2) \<Rightarrow> (True, py_print (tick @ '' '' @ filepath) w2))
           else (False, w1)))"

definition parsers_process_file :: "string \<Rightarrow> world \<Rightarrow> bool \<times> world" where
  "parsers_process_file = process_file_with refactor_content"

definition phase2_process_file :: "string \<Rightarrow> world \<Rightarrow> bool \<times> world" where
  "phase2_process_file = process_file_with refactor_content_phase2"

text \<open>
  The inner loop of \<^verbatim>\<open>main\<close>, over the files that \<^verbatim>\<open>rglob\<close> yields, with the two
  counters; and the outer loop over the module names. \<open>header\<close> is what \<^verbatim>\<open>main\<close> prints
  before it walks a module.
\<close>

fun files_loop :: "(string \<Rightarrow> world \<Rightarrow> bool \<times> world) \<Rightarrow> string list \<Rightarrow> nat \<Rightarrow> nat \<Rightarrow> world
    \<Rightarrow> (nat \<times> nat) \<times> world" where
  "files_loop process_file [] changed_count total_count w = ((changed_count, total_count), w)"
| "files_loop process_file (rs_file # others) changed_count total_count w =
     (if contains ''examples'' rs_file
      then files_loop process_file others changed_count total_count w
      else (case process_file rs_file w of
              (changed, w') \<Rightarrow>
                files_loop process_file others
                  (if changed then changed_count + 1 else changed_count) (total_count + 1) w'))"

fun langs_loop :: "(string \<Rightarrow> world \<Rightarrow> bool \<times> world) \<Rightarrow> (string \<Rightarrow> world \<Rightarrow> world) \<Rightarrow> string list
    \<Rightarrow> nat \<Rightarrow> nat \<Rightarrow> world \<Rightarrow> (nat \<times> nat) \<times> world" where
  "langs_loop process_file header [] changed_count total_count w = ((changed_count, total_count), w)"
| "langs_loop process_file header (lang # others) changed_count total_count w =
     (let lang_path = base @ ''/'' @ ''src_'' @ lang in
      if \<not> path_exists w lang_path
      then langs_loop process_file header others changed_count total_count w
      else (let w1 = header lang w in
            case files_loop process_file (rglob_rs w1 lang_path) changed_count total_count w1 of
              ((changed_count', total_count'), w2) \<Rightarrow>
                langs_loop process_file header others changed_count' total_count' w2))"

definition rule60 :: string where
  "rule60 = replicate 60 CHR ''=''"

definition parsers_header :: "string \<Rightarrow> world \<Rightarrow> world" where
  "parsers_header lang w =
     py_print rule60 (py_print (''Processing '' @ lang @ ''...'') (py_print (''\<newline>'' @ rule60) w))"

definition parsers_langs :: "string list" where
  "parsers_langs = [''mini_rust'', ''mini_c'', ''mini_php'', ''mini_sh'', ''mini_apple_basic'',
     ''mini_apple_pascal'']"

definition parsers_main :: "world \<Rightarrow> (nat \<times> nat) \<times> world" where
  "parsers_main w =
     (case langs_loop parsers_process_file parsers_header parsers_langs 0 0 w of
        ((changed_count, total_count), w1) \<Rightarrow>
          ((changed_count, total_count),
           py_print rule60
             (py_print (''Complete! Changed '' @ str_nat changed_count @ ''/'' @ str_nat total_count
                  @ '' files'')
                (py_print (''\<newline>'' @ rule60) w1))))"

definition phase2_header :: "string \<Rightarrow> world \<Rightarrow> world" where
  "phase2_header lang w = py_print (''\<newline>Processing '' @ lang @ ''...'') w"

definition phase2_langs :: "string list" where
  "phase2_langs = [''lumen'', ''mini_rust'', ''mini_c'', ''mini_php'', ''mini_sh'',
     ''mini_apple_basic'', ''mini_apple_pascal'']"

definition phase2_main :: "world \<Rightarrow> (nat \<times> nat) \<times> world" where
  "phase2_main w =
     (case langs_loop phase2_process_file phase2_header phase2_langs 0 0 w of
        ((changed_count, total_count), w1) \<Rightarrow>
          ((changed_count, total_count),
           py_print (''\<newline>Phase 2 Complete! Changed '' @ str_nat changed_count @ ''/''
               @ str_nat total_count @ '' files'') w1))"

section \<open>The driver of \<^verbatim>\<open>refactor_to_lexeme.py\<close>\<close>

text \<open>
  This script has no \<^verbatim>\<open>try\<close>: an exception of \<^verbatim>\<open>read_text\<close> or \<^verbatim>\<open>write_text\<close> leaves
  \<^verbatim>\<open>update_dispatcher\<close>, \<^verbatim>\<open>process_file\<close> and \<^verbatim>\<open>main\<close>, so each of them returns either
  the exception (\<open>Inl\<close>) or normally (\<open>Inr\<close>), next to the world as it is then.
\<close>

definition update_dispatcher :: "string \<Rightarrow> string \<Rightarrow> world \<Rightarrow> (py_error + unit) \<times> world" where
  "update_dispatcher lang_path lang_name w =
     (let dispatcher_file = lang_path @ ''/'' @ ''src_'' @ lang_name @ ''.rs'' in
      if \<not> path_exists w dispatcher_file then (Inr (), w)
      else (case read_text dispatcher_file w of
              (Inl e, w1) \<Rightarrow> (Inl e, w1)
            | (Inr content, w1) \<Rightarrow>
                (let lexemes = (case map_of LANG_LEXEMES lang_name of Some ls \<Rightarrow> ls | None \<Rightarrow> []);
                     content = re_sub lx_pat_register_all [G 1, T (registration lexemes)] content
                 in case write_text dispatcher_file content w1 of
                      (Inl e, w2) \<Rightarrow> (Inl e, w2)
                    | (Inr u, w2) \<Rightarrow>
                        (Inr (), py_print (''Updated dispatcher: '' @ dispatcher_file) w2))))"

definition lexeme_transform :: "string \<Rightarrow> string" where
  \<open>lexeme_transform original =
     (let content = original;
          content = refactor_token_matches content;
          content = remove_token_registration content;
          content = (if contains ''pub fn register(reg: &mut Registry)'' content
                        \<and> contains ''reg.tokens.'' original
                     then re_sub lx_pat_register lx_tpl_register content
                     else content)
      in content)\<close>

definition lexeme_process_file :: "string \<Rightarrow> world \<Rightarrow> (py_error + unit) \<times> world" where
  "lexeme_process_file filepath w =
     (if contains ''examples'' filepath then (Inr (), w)
      else (case read_text filepath w of
              (Inl e, w1) \<Rightarrow> (Inl e, w1)
            | (Inr original, w1) \<Rightarrow>
                (let content = lexeme_transform original in
                 if content \<noteq> original then
                   (case write_text filepath content w1 of
                      (Inl e, w2) \<Rightarrow> (Inl e, w2)
                    | (Inr u, w2) \<Rightarrow> (Inr (), py_print (''Updated: '' @ filepath) w2))
                 else (Inr (), w1))))"

fun lexeme_files_loop :: "string list \<Rightarrow> world \<Rightarrow> (py_error + unit) \<times> world" where
  "lexeme_files_loop [] w = (Inr (), w)"
| "lexeme_files_loop (rs_file # others) w =
     (case lexeme_process_file rs_file w of
        (Inl e, w') \<Rightarrow> (Inl e, w')
      | (Inr u, w') \<Rightarrow> lexeme_files_loop others w')"

fun lexeme_langs_loop :: "string list \<Rightarrow> world \<Rightarrow> (py_error + unit) \<times> world" where
  "lexeme_langs_loop [] w = (Inr (), w)"
| "lexeme_langs_loop (lang_name # others) w =
     (let lang_path = base @ ''/'' @ ''src_'' @ lang_name in
      if path_exists w lang_path
      then (let w1 = py_print (''\<newline>Processing '' @ lang_name @ ''...'') w in
            case update_dispatcher lang_path lang_name w1 of
              (Inl e, w2) \<Rightarrow> (Inl e, w2)
            | (Inr u, w2) \<Rightarrow>
                (case lexeme_files_loop (rglob_rs w2 lang_path) w2 of
                   (Inl e, w3) \<Rightarrow> (Inl e, w3)
                 | (Inr u', w3) \<Rightarrow> lexeme_langs_loop others w3))
      else lexeme_langs_loop others w)"

definition lexeme_main :: "world \<Rightarrow> (py_error + unit) \<times> world" where
  "lexeme_main w = lexeme_langs_loop (map fst LANG_LEXEMES) w"

section \<open>What a run touches\<close>

text \<open>
  An event touches a path when it is a \<^verbatim>\<open>read_text\<close> or a \<^verbatim>\<open>write_text\<close> call on that
  path. \<open>extends_avoiding p w w'\<close>: the trace of \<open>w'\<close> is the trace of \<open>w\<close> and then events
  that do not touch \<open>p\<close>. \<open>path_segments\<close> cuts a path at its slashes. The two worlds are
  the inputs of the witnesses below.
\<close>

fun touches :: "string \<Rightarrow> event \<Rightarrow> bool" where
  "touches p (Read_text q) = (q = p)"
| "touches p (Write_text q t) = (q = p)"
| "touches p (Print line) = False"

fun path_segments :: "string \<Rightarrow> string list" where
  "path_segments [] = [[]]"
| "path_segments (c # cs) =
     (if c = CHR ''/'' then [] # path_segments cs
      else (case path_segments cs of [] \<Rightarrow> [[c]] | seg # segs \<Rightarrow> (c # seg) # segs))"

definition world_counterexamples_dir :: world where
  "world_counterexamples_dir =
     \<lparr>entries = [(''/home/user/lumen-lang/src_mini_c'', Dir),
                (''/home/user/lumen-lang/src_mini_c/counterexamples'', Dir),
                (''/home/user/lumen-lang/src_mini_c/counterexamples/lexer.rs'',
                 File \<lparr>contents = ''fn f() {}'', read_error = None, write_error = None\<rparr>)],
      trace = []\<rparr>"

definition world_nested_examples :: world where
  "world_nested_examples =
     \<lparr>entries = [(''/home/user/lumen-lang/src_mini_rust'', Dir),
                (''/home/user/lumen-lang/src_mini_rust/examples'', Dir),
                (''/home/user/lumen-lang/src_mini_rust/examples/demo'', Dir),
                (''/home/user/lumen-lang/src_mini_rust/examples/demo/hello.rs'',
                 File \<lparr>contents = ''fn f() {}'', read_error = None, write_error = None\<rparr>)],
      trace = []\<rparr>"

definition extends_avoiding :: "string \<Rightarrow> world \<Rightarrow> world \<Rightarrow> bool" where
  "extends_avoiding p w w' = (\<exists>evs. trace w' = trace w @ evs \<and> (\<forall>e \<in> set evs. \<not> touches p e))"

section \<open>What a run reads and writes\<close>

text \<open>
  \<open>reads_of\<close> and \<open>writes_of\<close> are the \<^verbatim>\<open>read_text\<close> and \<^verbatim>\<open>write_text\<close> calls of a trace.
  \<open>eligible w langs\<close> lists the paths that \<^verbatim>\<open>main\<close> has to process: for each module whose
  directory exists, the paths below it that end in \<^verbatim>\<open>.rs\<close> and do not contain
  \<^verbatim>\<open>examples\<close>. \<open>same_tree\<close>: two worlds have the same paths, in the same order (the
  texts may differ). The four worlds are the trees of the runs evaluated below: a module
  whose first file cannot be read; a module whose dispatcher file has no \<^verbatim>\<open>register_all\<close>
  function; the same with a dispatcher file that cannot be written; and the same with a
  dispatcher file that has Windows line ends.
\<close>

fun reads_of :: "event list \<Rightarrow> string list" where
  "reads_of [] = []"
| "reads_of (Read_text p # evs) = p # reads_of evs"
| "reads_of (e # evs) = reads_of evs"

fun writes_of :: "event list \<Rightarrow> (string \<times> string) list" where
  "writes_of [] = []"
| "writes_of (Write_text p t # evs) = (p, t) # writes_of evs"
| "writes_of (e # evs) = writes_of evs"

definition eligible :: "world \<Rightarrow> string list \<Rightarrow> string list" where
  "eligible w langs =
     concat (map (\<lambda>lang.
        if path_exists w (base @ ''/'' @ ''src_'' @ lang)
        then filter (\<lambda>f. \<not> contains ''examples'' f) (rglob_rs w (base @ ''/'' @ ''src_'' @ lang))
        else []) langs)"

definition same_tree :: "world \<Rightarrow> world \<Rightarrow> bool" where
  "same_tree w w' = (map fst (entries w') = map fst (entries w))"

definition world_unreadable_first :: world where
  "world_unreadable_first =
     \<lparr>entries = [(''/home/user/lumen-lang/src_mini_rust'', Dir),
                (''/home/user/lumen-lang/src_mini_rust/a.rs'',
                 File \<lparr>contents = ''fn a() {}'',
                       read_error = Some (''[Errno 13] Permission denied: ''
                                            @ quoted ''/home/user/lumen-lang/src_mini_rust/a.rs''),
                       write_error = None\<rparr>),
                (''/home/user/lumen-lang/src_mini_rust/b.rs'',
                 File \<lparr>contents = ''fn b() {}'', read_error = None, write_error = None\<rparr>)],
      trace = []\<rparr>"

definition world_plain_dispatcher :: world where
  "world_plain_dispatcher =
     \<lparr>entries = [(''/home/user/lumen-lang/src_mini_c'', Dir),
                (''/home/user/lumen-lang/src_mini_c/src_mini_c.rs'',
                 File \<lparr>contents = ''fn main() {}\<newline>'', read_error = None, write_error = None\<rparr>)],
      trace = []\<rparr>"

definition world_read_only_dispatcher :: world where
  "world_read_only_dispatcher =
     \<lparr>entries = [(''/home/user/lumen-lang/src_mini_c'', Dir),
                (''/home/user/lumen-lang/src_mini_c/src_mini_c.rs'',
                 File \<lparr>contents = ''fn main() {}\<newline>'', read_error = None,
                       write_error = Some (''[Errno 13] Permission denied: ''
                                             @ quoted ''/home/user/lumen-lang/src_mini_c/src_mini_c.rs'')\<rparr>)],
      trace = []\<rparr>"

definition world_crlf_dispatcher :: world where
  "world_crlf_dispatcher =
     \<lparr>entries = [(''/home/user/lumen-lang/src_mini_c'', Dir),
                (''/home/user/lumen-lang/src_mini_c/src_mini_c.rs'',
                 File \<lparr>contents = ''fn main() {}'' @ [CHR 0x0D, CHR 0x0A], read_error = None,
                       write_error = None\<rparr>)],
      trace = []\<rparr>"

section \<open>What a pattern accepts\<close>

text \<open>
  \<open>acc p u\<close>: the pattern \<open>p\<close> accepts the whole text \<open>u\<close> (the language of \<open>p\<close>, with no
  regard to the order in which a backtracking matcher finds matches). \<open>matches_at p s\<close>:
  some prefix of \<open>s\<close> is accepted. \<open>anchored L p\<close>: some literal of \<open>p\<close> contains the text
  \<open>L\<close>, so every match contains it. \<open>free_of anchors s\<close>: \<open>s\<close> contains none of the
  anchors. The three lists name, for each script, literals such that every rule needs one
  of them.
\<close>

fun acc :: "regex \<Rightarrow> string \<Rightarrow> bool" where
  "acc [] u = (u = [])"
| "acc (Lit l # r) u = (\<exists>u'. u = l @ u' \<and> acc r u')"
| "acc (Star c # r) u = (\<exists>k u'. u = k @ u' \<and> list_all c k \<and> acc r u')"
| "acc (Plus c # r) u = (\<exists>k u'. u = k @ u' \<and> k \<noteq> [] \<and> list_all c k \<and> acc r u')"
| "acc (Opt x # r) u = (acc r u \<or> (\<exists>u'. u = x # u' \<and> acc r u'))"
| "acc (OneOf ls # r) u = (\<exists>l u'. l \<in> set ls \<and> u = l @ u' \<and> acc r u')"
| "acc (GOpen # r) u = acc r u"
| "acc (GClose # r) u = acc r u"

definition matches_at :: "regex \<Rightarrow> string \<Rightarrow> bool" where
  "matches_at p s = (\<exists>u v. s = u @ v \<and> acc p u)"

fun anchored :: "string \<Rightarrow> regex \<Rightarrow> bool" where
  "anchored L [] = False"
| "anchored L (Lit l # r) = (if contains L l then True else anchored L r)"
| "anchored L (a # r) = anchored L r"

definition free_of :: "string list \<Rightarrow> string \<Rightarrow> bool" where
  "free_of anchors s = list_all (\<lambda>a. \<not> contains a s) anchors"

definition rc_anchors :: "string list" where
  "rc_anchors = [''matches!('', ''parser.advance()'', ''parser.peek_n('', ''(Token::Ident(_),'',
     ''use crate::kernel::lexer::Token;'', ''reg.tokens.add_'', ''// Register tokens'',
     ''// Token definitions'']"

definition lx_anchors :: "string list" where
  "lx_anchors = [''matches!(parser.peek(),'', ''parser.advance()'', ''parser.peek_n('',
     ''reg.tokens.add_'']"

definition p2_anchors :: "string list" where
  "p2_anchors = [''parser.advance()'', ''matches!(parser.peek(),'', ''Token::Feature('']"

section \<open>Texts that no match can touch\<close>

text \<open>
  Executable tests on a pattern \<open>p\<close> and a text \<open>y\<close>, each a sufficient condition.
  \<open>clash l y\<close>: \<open>l\<close> and \<open>y\<close> differ at a position that both have. \<open>dead p y\<close>: no text
  that \<open>p\<close> accepts is a prefix of \<open>y\<close> followed by anything. \<open>blocked p y\<close>: a match that
  begins before \<open>y\<close> cannot reach into \<open>y\<close>. \<open>settled p y\<close>: \<open>y\<close> is not empty, no match
  reaches into it and none begins inside it. \<open>match_free p t\<close>: \<open>p\<close> matches at no place
  of \<open>t\<close>.
\<close>

fun clash :: "string \<Rightarrow> string \<Rightarrow> bool" where
  "clash (a # as) (b # bs) = (if a = b then clash as bs else True)"
| "clash l y = False"

fun tails_ne :: "string \<Rightarrow> string list" where
  "tails_ne [] = []"
| "tails_ne (x # xs) = (x # xs) # tails_ne xs"

fun dead :: "regex \<Rightarrow> string \<Rightarrow> bool" where
  "dead [] y = False"
| "dead (Lit l # r) y =
     (if clash l y then True else (case strip l y of Some y' \<Rightarrow> dead r y' | None \<Rightarrow> False))"
| "dead (Star c # r) y = list_all (dead r) (greedy c y)"
| "dead (Plus c # r) y = (if y = [] then False else list_all (dead r) (butlast (greedy c y)))"
| "dead (Opt x # r) y =
     (if dead r y then (case strip [x] y of Some y' \<Rightarrow> dead r y' | None \<Rightarrow> True) else False)"
| "dead (OneOf ls # r) y =
     list_all (\<lambda>l. if clash l y then True
                    else (case strip l y of Some y' \<Rightarrow> dead r y' | None \<Rightarrow> False)) ls"
| "dead (GOpen # r) y = dead r y"
| "dead (GClose # r) y = dead r y"

fun blocked :: "regex \<Rightarrow> string \<Rightarrow> bool" where
  "blocked [] y = True"
| "blocked (Lit l # r) y =
     (if list_all (\<lambda>l'. dead (Lit l' # r) y) (tails_ne l) then blocked r y else False)"
| "blocked (Star c # r) y = (case y of [] \<Rightarrow> False | x # xs \<Rightarrow> if c x then False else blocked r y)"
| "blocked (Plus c # r) y = (case y of [] \<Rightarrow> False | x # xs \<Rightarrow> if c x then False else blocked r y)"
| "blocked (Opt x # r) y = (case y of [] \<Rightarrow> False | z # zs \<Rightarrow> if z = x then False else blocked r y)"
| "blocked (OneOf ls # r) y =
     (if list_all (\<lambda>l. list_all (\<lambda>l'. dead (Lit l' # r) y) (tails_ne l)) ls then blocked r y
      else False)"
| "blocked (GOpen # r) y = blocked r y"
| "blocked (GClose # r) y = blocked r y"

definition settled :: "regex \<Rightarrow> string \<Rightarrow> bool" where
  "settled p y = (y \<noteq> [] \<and> blocked p y \<and> list_all (dead p) (tails_ne y))"

definition match_free :: "regex \<Rightarrow> string \<Rightarrow> bool" where
  "match_free p t = (\<forall>a b. t = a @ b \<longrightarrow> \<not> matches_at p b)"

section \<open>Properties of the drivers: the examples exclusion\<close>

lemma extends_avoiding_refl: "extends_avoiding p w w"
  by (simp add: extends_avoiding_def)

lemma extends_avoiding_trans:
  "extends_avoiding p w w1 \<Longrightarrow> extends_avoiding p w1 w2 \<Longrightarrow> extends_avoiding p w w2"
  unfolding extends_avoiding_def by (elim exE conjE) (rule_tac x="evs @ evsa" in exI, auto)

lemma extends_avoiding_emit: "\<not> touches p e \<Longrightarrow> extends_avoiding p w (emit e w)"
  by (simp add: extends_avoiding_def emit_def)

lemma extends_avoiding_print: "extends_avoiding p w (py_print line w)"
  by (simp add: py_print_def extends_avoiding_emit)

lemma extends_avoiding_entries: "extends_avoiding p w (w\<lparr>entries := es\<rparr>)"
  by (simp add: extends_avoiding_def)

lemma read_text_avoiding: "q \<noteq> p \<Longrightarrow> extends_avoiding p w (snd (read_text q w))"
  by (auto simp: read_text_def extends_avoiding_emit split: option.splits node.splits)

lemma write_text_avoiding: "q \<noteq> p \<Longrightarrow> extends_avoiding p w (snd (write_text q t w))"
  by (auto simp: write_text_def extends_avoiding_def emit_def split: option.splits node.splits)

lemma process_file_with_avoiding:
  assumes "q \<noteq> p"
  shows "extends_avoiding p w (snd (process_file_with refactor q w))"
proof (cases "read_text q w")
  case (Pair r w1)
  have a1: "extends_avoiding p w w1" using read_text_avoiding [OF assms, where w=w] Pair by simp
  show ?thesis
  proof (cases r)
    case (Inl e)
    then show ?thesis using Pair a1
      by (auto simp: process_file_with_def intro: extends_avoiding_trans extends_avoiding_print)
  next
    case (Inr content)
    show ?thesis
    proof (cases "refactor content \<noteq> content")
      case False
      then show ?thesis using Pair Inr a1 by (simp add: process_file_with_def)
    next
      case True
      obtain r2 w2 where wr: "write_text q (refactor content) w1 = (r2, w2)" by (cases "write_text q (refactor content) w1")
      have a2: "extends_avoiding p w1 w2" using write_text_avoiding [OF assms, where t="refactor content" and w=w1] wr by simp
      have a3: "extends_avoiding p w w2" using a1 a2 by (rule extends_avoiding_trans)
      show ?thesis using Pair Inr True wr a3
        by (cases r2) (auto simp: process_file_with_def Let_def intro: extends_avoiding_trans extends_avoiding_print)
    qed
  qed
qed

lemma files_loop_avoiding:
  assumes "contains ''examples'' p" "\<And>q w. q \<noteq> p \<Longrightarrow> extends_avoiding p w (snd (pf q w))"
  shows "extends_avoiding p w (snd (files_loop pf fs c t w))"
proof (induction fs arbitrary: c t w)
  case Nil
  then show ?case by (simp add: extends_avoiding_refl)
next
  case (Cons f fs)
  show ?case
  proof (cases "contains ''examples'' f")
    case True
    then show ?thesis using Cons.IH by simp
  next
    case False
    then have ne: "f \<noteq> p" using assms(1) by auto
    obtain r w' where pf: "pf f w = (r, w')" by (cases "pf f w")
    have "extends_avoiding p w w'" using assms(2) [OF ne, where w=w] pf by simp
    moreover have "extends_avoiding p w' (snd (files_loop pf fs c' t' w'))" for c' t' by (rule Cons.IH)
    ultimately have "extends_avoiding p w (snd (files_loop pf fs c' t' w'))" for c' t'
      by (blast intro: extends_avoiding_trans)
    then show ?thesis using False pf by simp
  qed
qed


lemma langs_loop_avoiding:
  assumes "contains ''examples'' p" "\<And>q w. q \<noteq> p \<Longrightarrow> extends_avoiding p w (snd (pf q w))"
    "\<And>l w. extends_avoiding p w (hdr l w)"
  shows "extends_avoiding p w (snd (langs_loop pf hdr ls c t w))"
proof (induction ls arbitrary: c t w)
  case Nil
  then show ?case by (simp add: extends_avoiding_refl)
next
  case (Cons l ls)
  show ?case
  proof (cases "path_exists w (base @ ''/'' @ ''src_'' @ l)")
    case False
    then show ?thesis using Cons.IH by simp
  next
    case True
    obtain r w2 where fl: "files_loop pf (rglob_rs (hdr l w) (base @ ''/'' @ ''src_'' @ l)) c t (hdr l w) = (r, w2)"
      by (cases "files_loop pf (rglob_rs (hdr l w) (base @ ''/'' @ ''src_'' @ l)) c t (hdr l w)")
    have "extends_avoiding p (hdr l w)
        (snd (files_loop pf (rglob_rs (hdr l w) (base @ ''/'' @ ''src_'' @ l)) c t (hdr l w)))"
      by (rule files_loop_avoiding [where pf=pf, OF assms(1)]) (rule assms(2))
    then have "extends_avoiding p (hdr l w) w2" using fl by simp
    then have "extends_avoiding p w w2" using assms(3) [of w l] by (rule extends_avoiding_trans [rotated])
    moreover obtain c' t' where r: "r = (c', t')" by (cases r)
    moreover have "extends_avoiding p w2 (snd (langs_loop pf hdr ls c' t' w2))" by (rule Cons.IH)
    ultimately have "extends_avoiding p w (snd (langs_loop pf hdr ls c' t' w2))"
      by (blast intro: extends_avoiding_trans)
    then show ?thesis using True fl r by (simp add: Let_def)
  qed
qed

lemma extends_avoiding_then_print:
  "extends_avoiding p w w1 \<Longrightarrow> extends_avoiding p w (py_print line w1)"
  by (rule extends_avoiding_trans [OF _ extends_avoiding_print])

lemma parsers_header_avoiding: "extends_avoiding p w (parsers_header l w)"
  unfolding parsers_header_def
  by (intro extends_avoiding_then_print extends_avoiding_refl)

lemma phase2_header_avoiding: "extends_avoiding p w (phase2_header l w)"
  unfolding phase2_header_def by (rule extends_avoiding_print)

lemma parsers_main_avoiding:
  assumes "contains ''examples'' p"
  shows "extends_avoiding p w (snd (parsers_main w))"
proof -
  obtain c t w1 where l: "langs_loop parsers_process_file parsers_header parsers_langs 0 0 w = ((c, t), w1)"
    by (metis surj_pair)
  have "extends_avoiding p w (snd (langs_loop parsers_process_file parsers_header parsers_langs 0 0 w))"
    by (rule langs_loop_avoiding [OF assms])
       (simp_all add: parsers_process_file_def process_file_with_avoiding parsers_header_avoiding)
  then have "extends_avoiding p w w1" using l by simp
  then have "extends_avoiding p w (py_print a3 (py_print a2 (py_print a1 w1)))" for a1 a2 a3
    by (intro extends_avoiding_then_print)
  then show ?thesis using l by (simp add: parsers_main_def)
qed

lemma phase2_main_avoiding:
  assumes "contains ''examples'' p"
  shows "extends_avoiding p w (snd (phase2_main w))"
proof -
  obtain c t w1 where l: "langs_loop phase2_process_file phase2_header phase2_langs 0 0 w = ((c, t), w1)"
    by (metis surj_pair)
  have "extends_avoiding p w (snd (langs_loop phase2_process_file phase2_header phase2_langs 0 0 w))"
    by (rule langs_loop_avoiding [OF assms])
       (simp_all add: phase2_process_file_def process_file_with_avoiding phase2_header_avoiding)
  then have "extends_avoiding p w w1" using l by simp
  then have "extends_avoiding p w (py_print a1 w1)" for a1
    by (intro extends_avoiding_then_print)
  then show ?thesis using l by (simp add: phase2_main_def)
qed


lemma update_dispatcher_avoiding:
  assumes "lang_path @ ''/'' @ ''src_'' @ lang_name @ ''.rs'' \<noteq> p"
  shows "extends_avoiding p w (snd (update_dispatcher lang_path lang_name w))"
proof -
  let ?d = "lang_path @ ''/'' @ ''src_'' @ lang_name @ ''.rs''"
  obtain r w1 where rd: "read_text ?d w = (r, w1)" by (cases "read_text ?d w")
  have a1: "extends_avoiding p w w1" using read_text_avoiding [OF assms, where w=w] rd by simp
  show ?thesis
  proof (cases "path_exists w ?d")
    case False
    then show ?thesis by (simp add: update_dispatcher_def Let_def extends_avoiding_refl)
  next
    case True
    show ?thesis
    proof (cases r)
      case (Inl e)
      then show ?thesis using True rd a1 by (simp add: update_dispatcher_def Let_def)
    next
      case (Inr content)
      let ?c = "re_sub lx_pat_register_all
          [G 1, T (registration (case map_of LANG_LEXEMES lang_name of None \<Rightarrow> [] | Some ls \<Rightarrow> ls))] content"
      obtain r2 w2 where wr: "write_text ?d ?c w1 = (r2, w2)" by (cases "write_text ?d ?c w1")
      have "extends_avoiding p w1 w2" using write_text_avoiding [OF assms, where w=w1 and t="?c"] wr by simp
      then have a2: "extends_avoiding p w w2" using a1 extends_avoiding_trans by blast
      then have a3: "extends_avoiding p w (py_print line w2)" for line
        by (rule extends_avoiding_then_print)
      show ?thesis using True rd Inr wr a2 a3
        by (cases r2) (simp_all add: update_dispatcher_def Let_def)
    qed
  qed
qed

lemma lexeme_process_file_avoiding:
  assumes "contains ''examples'' p"
  shows "extends_avoiding p w (snd (lexeme_process_file q w))"
proof (cases "contains ''examples'' q")
  case True
  then show ?thesis by (simp add: lexeme_process_file_def extends_avoiding_refl)
next
  case False
  then have ne: "q \<noteq> p" using assms by auto
  obtain r w1 where rd: "read_text q w = (r, w1)" by (cases "read_text q w")
  have a1: "extends_avoiding p w w1" using read_text_avoiding [OF ne, where w=w] rd by simp
  show ?thesis
  proof (cases r)
    case (Inl e)
    then show ?thesis using False rd a1 by (simp add: lexeme_process_file_def)
  next
    case (Inr original)
    obtain r2 w2 where wr: "write_text q (lexeme_transform original) w1 = (r2, w2)"
      by (cases "write_text q (lexeme_transform original) w1")
    have "extends_avoiding p w1 w2"
      using write_text_avoiding [OF ne, where w=w1 and t="lexeme_transform original"] wr by simp
    then have a2: "extends_avoiding p w w2" using a1 extends_avoiding_trans by blast
    then have a3: "extends_avoiding p w (py_print line w2)" for line
      by (rule extends_avoiding_then_print)
    show ?thesis using False rd Inr wr a1 a2 a3
      by (cases r2) (simp_all add: lexeme_process_file_def Let_def)
  qed
qed

lemma lexeme_files_loop_avoiding:
  assumes "contains ''examples'' p"
  shows "extends_avoiding p w (snd (lexeme_files_loop fs w))"
proof (induction fs arbitrary: w)
  case Nil
  then show ?case by (simp add: extends_avoiding_refl)
next
  case (Cons f fs)
  obtain r w' where pf: "lexeme_process_file f w = (r, w')" by (cases "lexeme_process_file f w")
  have a1: "extends_avoiding p w w'" using lexeme_process_file_avoiding [OF assms, where w=w and q=f] pf by simp
  have "extends_avoiding p w' (snd (lexeme_files_loop fs w'))" by (rule Cons.IH)
  then have "extends_avoiding p w (snd (lexeme_files_loop fs w'))" using a1 extends_avoiding_trans by blast
  then show ?case using pf a1 by (cases r) simp_all
qed

lemma lexeme_langs_loop_avoiding:
  assumes "contains ''examples'' p"
    and "\<forall>l \<in> set ls. \<not> contains ''examples'' ((base @ ''/'' @ ''src_'' @ l) @ ''/'' @ ''src_'' @ l @ ''.rs'')"
  shows "extends_avoiding p w (snd (lexeme_langs_loop ls w))"
  using assms(2)
proof (induction ls arbitrary: w)
  case Nil
  then show ?case by (simp add: extends_avoiding_refl)
next
  case (Cons l ls)
  let ?lp = "base @ ''/'' @ ''src_'' @ l"
  let ?w1 = "py_print (''\<newline>Processing '' @ l @ ''...'') w"
  have ih: "extends_avoiding p w' (snd (lexeme_langs_loop ls w'))" for w'
    using Cons.IH Cons.prems by simp
  show ?case
  proof (cases "path_exists w ?lp")
    case False
    then show ?thesis using ih by (simp add: Let_def)
  next
    case True
    have ne: "?lp @ ''/'' @ ''src_'' @ l @ ''.rs'' \<noteq> p" using Cons.prems assms(1) by auto
    obtain r2 w2 where ud: "update_dispatcher ?lp l ?w1 = (r2, w2)" by (cases "update_dispatcher ?lp l ?w1")
    have "extends_avoiding p ?w1 w2" using update_dispatcher_avoiding [OF ne, where w="?w1"] ud by simp
    then have a2: "extends_avoiding p w w2" using extends_avoiding_print extends_avoiding_trans by blast
    obtain r3 w3 where fl: "lexeme_files_loop (rglob_rs w2 ?lp) w2 = (r3, w3)"
      by (cases "lexeme_files_loop (rglob_rs w2 ?lp) w2")
    have "extends_avoiding p w2 w3"
      using lexeme_files_loop_avoiding [OF assms(1), where w=w2 and fs="rglob_rs w2 ?lp"] fl by simp
    then have a3: "extends_avoiding p w w3" using a2 extends_avoiding_trans by blast
    have "extends_avoiding p w (snd (lexeme_langs_loop ls w3))" using a3 ih extends_avoiding_trans by blast
    then show ?thesis using True ud fl a2 a3
      by (cases r2; cases r3) (simp_all add: Let_def)
  qed
qed

lemma lexeme_main_avoiding:
  assumes "contains ''examples'' p"
  shows "extends_avoiding p w (snd (lexeme_main w))"
  unfolding lexeme_main_def
  by (rule lexeme_langs_loop_avoiding [OF assms]) (simp add: LANG_LEXEMES_def base_def)


lemma strip_append: "strip l (l @ b) = Some b"
  by (induction l) simp_all

lemma strip_Some_iff: "strip l s = Some r \<longleftrightarrow> s = l @ r"
  by (induction l s rule: strip.induct) auto

lemma contains_append: "contains l (a @ l @ b)"
proof (induction a)
  case Nil
  show ?case by (cases "l @ b") (simp_all add: strip_append del: strip.simps, metis option.distinct(1) strip_append)
next
  case (Cons x a)
  then show ?case by simp
qed

lemma contains_iff: "contains l s \<longleftrightarrow> (\<exists>a b. s = a @ l @ b)"
proof
  show "contains l s \<Longrightarrow> \<exists>a b. s = a @ l @ b"
  proof (induction s)
    case Nil
    then show ?case by simp
  next
    case (Cons x s)
    show ?case
    proof (cases "strip l (x # s)")
      case None
      then have "contains l s" using Cons.prems by simp
      then obtain a b where "s = a @ l @ b" using Cons.IH by blast
      then have "x # s = (x # a) @ l @ b" by simp
      then show ?thesis by blast
    next
      case (Some r)
      then have "x # s = [] @ l @ r" by (simp add: strip_Some_iff)
      then show ?thesis by blast
    qed
  qed
next
  show "\<exists>a b. s = a @ l @ b \<Longrightarrow> contains l s" using contains_append by blast
qed

lemma path_segments_nonempty: "path_segments p \<noteq> []"
  by (induction p) (auto split: list.splits)

lemma path_segments_shape:
  "path_segments p = s0 # ss \<Longrightarrow>
     (\<exists>b. p = s0 @ b) \<and> (\<forall>seg \<in> set ss. \<exists>a b. p = a @ seg @ b)"
proof (induction p arbitrary: s0 ss)
  case Nil
  then show ?case by simp
next
  case (Cons c cs)
  obtain t0 ts where ps: "path_segments cs = t0 # ts"
    using path_segments_nonempty [of cs] by (cases "path_segments cs") auto
  from Cons.IH [OF ps] obtain b0 where b0: "cs = t0 @ b0"
    and rest: "\<forall>seg \<in> set ts. \<exists>a b. cs = a @ seg @ b" by blast
  have rest': "\<exists>a b. c # cs = a @ seg @ b" if "seg \<in> set ts" for seg
  proof -
    from rest that obtain a b where "cs = a @ seg @ b" by blast
    then have "c # cs = (c # a) @ seg @ b" by simp
    then show ?thesis by blast
  qed
  show ?case
  proof (cases "c = CHR ''/''")
    case True
    then have s0: "s0 = []" and ss: "ss = t0 # ts" using Cons.prems ps by auto
    have "c # cs = [c] @ t0 @ b0" using b0 by simp
    then have "\<exists>a b. c # cs = a @ t0 @ b" by blast
    then show ?thesis using s0 ss rest' by auto
  next
    case False
    then have s0: "s0 = c # t0" and ss: "ss = ts" using Cons.prems ps by auto
    have "c # cs = s0 @ b0" using b0 s0 by simp
    then show ?thesis using ss rest' by auto
  qed
qed

lemma path_segment_contains:
  assumes "seg \<in> set (path_segments p)"
  shows "contains seg p"
proof -
  obtain s0 ss where ps: "path_segments p = s0 # ss"
    using path_segments_nonempty [of p] by (cases "path_segments p") auto
  from path_segments_shape [OF ps] obtain b where b: "p = s0 @ b"
    and rest: "\<forall>seg \<in> set ss. \<exists>a b. p = a @ seg @ b" by blast
  from assms ps consider "seg = s0" | "seg \<in> set ss" by auto
  then have "\<exists>a b. p = a @ seg @ b"
  proof cases
    case 1
    then have "p = [] @ seg @ b" using b by simp
    then show ?thesis by blast
  next
    case 2
    then show ?thesis using rest by blast
  qed
  then show ?thesis by (simp add: contains_iff)
qed

text \<open>
  Claim C10. The exclusion is a substring test on the whole path: a file whose path
  contains the characters \<^verbatim>\<open>examples\<close> anywhere (a directory \<^verbatim>\<open>counterexamples\<close>, a file
  \<^verbatim>\<open>examples_utils.rs\<close>) is never read and never written by any of the three drivers:
  every event that a run of \<^verbatim>\<open>main\<close> adds to the trace is on another path.
\<close>

theorem examples_substring_never_touched:
  assumes "contains ''examples'' p"
  shows "(\<exists>evs. trace (snd (parsers_main w)) = trace w @ evs \<and> (\<forall>e \<in> set evs. \<not> touches p e))
       \<and> (\<exists>evs. trace (snd (phase2_main w)) = trace w @ evs \<and> (\<forall>e \<in> set evs. \<not> touches p e))
       \<and> (\<exists>evs. trace (snd (lexeme_main w)) = trace w @ evs \<and> (\<forall>e \<in> set evs. \<not> touches p e))"
  using parsers_main_avoiding [OF assms, of w] phase2_main_avoiding [OF assms, of w]
    lexeme_main_avoiding [OF assms, of w]
  by (simp add: extends_avoiding_def)

theorem examples_substring_never_touched_witness:
  "contains ''examples'' ''/home/user/lumen-lang/src_mini_c/counterexamples/lexer.rs''
   \<and> filter (touches ''/home/user/lumen-lang/src_mini_c/counterexamples/lexer.rs'')
         (trace (snd (parsers_main world_counterexamples_dir))) = []
   \<and> filter (touches ''/home/user/lumen-lang/src_mini_c/counterexamples/lexer.rs'')
         (trace (snd (phase2_main world_counterexamples_dir))) = []
   \<and> filter (touches ''/home/user/lumen-lang/src_mini_c/counterexamples/lexer.rs'')
         (trace (snd (lexeme_main world_counterexamples_dir))) = []"
proof -
  have c: "contains ''examples'' ''/home/user/lumen-lang/src_mini_c/counterexamples/lexer.rs''"
    by simp
  have t: "trace world_counterexamples_dir = []" by (simp add: world_counterexamples_dir_def)
  show ?thesis
    using c examples_substring_never_touched [OF c, of world_counterexamples_dir] t
    by (auto simp: filter_empty_conv)
qed

text \<open>
  Claim C5. A file below a directory named \<^verbatim>\<open>examples\<close>, at any depth, is never read and
  never written by any of the three drivers.
\<close>

theorem examples_segment_never_touched:
  assumes "''examples'' \<in> set (path_segments p)"
  shows "(\<exists>evs. trace (snd (parsers_main w)) = trace w @ evs \<and> (\<forall>e \<in> set evs. \<not> touches p e))
       \<and> (\<exists>evs. trace (snd (phase2_main w)) = trace w @ evs \<and> (\<forall>e \<in> set evs. \<not> touches p e))
       \<and> (\<exists>evs. trace (snd (lexeme_main w)) = trace w @ evs \<and> (\<forall>e \<in> set evs. \<not> touches p e))"
proof -
  have c: "contains ''examples'' p" using assms by (rule path_segment_contains)
  show ?thesis
    using parsers_main_avoiding [OF c, of w] phase2_main_avoiding [OF c, of w]
      lexeme_main_avoiding [OF c, of w]
    by (simp add: extends_avoiding_def)
qed

theorem examples_segment_never_touched_witness:
  "''examples'' \<in> set (path_segments ''/home/user/lumen-lang/src_mini_rust/examples/demo/hello.rs'')
   \<and> filter (touches ''/home/user/lumen-lang/src_mini_rust/examples/demo/hello.rs'')
         (trace (snd (parsers_main world_nested_examples))) = []
   \<and> filter (touches ''/home/user/lumen-lang/src_mini_rust/examples/demo/hello.rs'')
         (trace (snd (phase2_main world_nested_examples))) = []
   \<and> filter (touches ''/home/user/lumen-lang/src_mini_rust/examples/demo/hello.rs'')
         (trace (snd (lexeme_main world_nested_examples))) = []"
proof -
  have c: "''examples'' \<in> set (path_segments ''/home/user/lumen-lang/src_mini_rust/examples/demo/hello.rs'')"
    by simp
  have t: "trace world_nested_examples = []" by (simp add: world_nested_examples_def)
  show ?thesis
    using c examples_segment_never_touched [OF c, of world_nested_examples] t
    by (auto simp: filter_empty_conv)
qed

section \<open>Properties of the drivers: change detection and error recovery\<close>

lemma reads_of_append: "reads_of (xs @ ys) = reads_of xs @ reads_of ys"
  by (induction xs rule: reads_of.induct) simp_all

lemma writes_of_append: "writes_of (xs @ ys) = writes_of xs @ writes_of ys"
  by (induction xs rule: writes_of.induct) simp_all

lemma same_tree_refl: "same_tree w w"
  by (simp add: same_tree_def)

lemma same_tree_trans: "same_tree w w1 \<Longrightarrow> same_tree w1 w2 \<Longrightarrow> same_tree w w2"
  by (simp add: same_tree_def)

lemma same_tree_emit: "same_tree w (emit e w)"
  by (simp add: same_tree_def emit_def)

lemma same_tree_print: "same_tree w (py_print line w)"
  by (simp add: py_print_def same_tree_emit)

lemma map_of_eq_None_keys: "map_of fs p = None \<longleftrightarrow> p \<notin> set (map fst fs)"
  by (simp add: map_of_eq_None_iff)

lemma path_exists_same_tree: "same_tree w w' \<Longrightarrow> path_exists w' p = path_exists w p"
  by (simp add: path_exists_def same_tree_def map_of_eq_None_iff flip: set_map)

lemma rglob_rs_same_tree: "same_tree w w' \<Longrightarrow> rglob_rs w' d = rglob_rs w d"
  by (simp add: rglob_rs_def same_tree_def)

lemma set_text_keys: "map_of es p = Some n \<Longrightarrow> map fst (set_text p t es) = map fst es"
  by (induction es) (auto split: if_splits)

lemma read_text_snd: "snd (read_text q w) = emit (Read_text q) w"
  by (simp add: read_text_def split: option.splits node.splits)

lemma read_text_Inr:
  "fst (read_text q w) = Inr c \<Longrightarrow>
   \<exists>f. map_of (entries w) q = Some (File f) \<and> universal_newlines (contents f) = c \<and> read_error f = None"
  by (auto simp: read_text_def split: option.splits node.splits)

lemma write_text_trace: "trace (snd (write_text q t w)) = trace w @ [Write_text q t]"
  by (simp add: write_text_def emit_def split: option.splits node.splits)

lemma write_text_same_tree:
  "map_of (entries w) q = Some n \<Longrightarrow> same_tree w (snd (write_text q t w))"
  by (auto simp: write_text_def emit_def same_tree_def set_text_keys split: option.splits node.splits)

lemma entries_emit [simp]: "entries (emit e w) = entries w"
  by (simp add: emit_def)

lemma trace_emit [simp]: "trace (emit e w) = trace w @ [e]"
  by (simp add: emit_def)

lemma entries_print [simp]: "entries (py_print line w) = entries w"
  by (simp add: py_print_def)

lemma trace_print [simp]: "trace (py_print line w) = trace w @ [Print line]"
  by (simp add: py_print_def)

text \<open>What \<^verbatim>\<open>process_file\<close> of the two scripts with a \<^verbatim>\<open>try\<close> does, case by case.\<close>

lemma process_file_with_read_fails:
  assumes "fst (read_text q w) = Inl e"
  shows "process_file_with rf q w =
    (False, py_print (cross @ '' '' @ q @ '': '' @ message e) (emit (Read_text q) w))"
  using assms read_text_snd [of q w]
  by (cases "read_text q w") (simp add: process_file_with_def)

lemma process_file_with_unchanged:
  assumes "fst (read_text q w) = Inr c" "rf c = c"
  shows "process_file_with rf q w = (False, emit (Read_text q) w)"
  using assms read_text_snd [of q w]
  by (cases "read_text q w") (simp add: process_file_with_def)

lemma process_file_with_write_fails:
  assumes "fst (read_text q w) = Inr c" "rf c \<noteq> c"
    "fst (write_text q (rf c) (emit (Read_text q) w)) = Inl e"
  shows "process_file_with rf q w =
    (False, py_print (cross @ '' '' @ q @ '': '' @ message e)
       (snd (write_text q (rf c) (emit (Read_text q) w))))"
  using assms read_text_snd [of q w]
  by (cases "read_text q w"; cases "write_text q (rf c) (emit (Read_text q) w)")
     (simp add: process_file_with_def Let_def)

lemma process_file_with_written:
  assumes "fst (read_text q w) = Inr c" "rf c \<noteq> c"
    "fst (write_text q (rf c) (emit (Read_text q) w)) = Inr u"
  shows "process_file_with rf q w =
    (True, py_print (tick @ '' '' @ q) (snd (write_text q (rf c) (emit (Read_text q) w))))"
  using assms read_text_snd [of q w]
  by (cases "read_text q w"; cases "write_text q (rf c) (emit (Read_text q) w)")
     (simp add: process_file_with_def Let_def)

lemma process_file_with_reads:
  "reads_of (trace (snd (process_file_with rf q w))) = reads_of (trace w) @ [q]
   \<and> same_tree w (snd (process_file_with rf q w))"
proof (cases "fst (read_text q w)")
  case (Inl e)
  then show ?thesis
    by (simp add: process_file_with_read_fails reads_of_append same_tree_def py_print_def emit_def)
next
  case (Inr c)
  then obtain f where f: "map_of (entries w) q = Some (File f)" using read_text_Inr by blast
  show ?thesis
  proof (cases "rf c = c")
    case True
    then show ?thesis using Inr
      by (simp add: process_file_with_unchanged reads_of_append same_tree_emit)
  next
    case False
    let ?w1 = "emit (Read_text q) w"
    have st: "same_tree w (snd (write_text q (rf c) ?w1))"
      using write_text_same_tree [of ?w1 q "File f" "rf c"] f same_tree_emit [of w "Read_text q"]
      by (simp add: same_tree_def)
    have tr: "reads_of (trace (snd (write_text q (rf c) ?w1))) = reads_of (trace w) @ [q]"
      by (simp add: write_text_trace reads_of_append)
    show ?thesis
    proof (cases "fst (write_text q (rf c) ?w1)")
      case (Inl e)
      then show ?thesis using Inr False st tr
        by (simp add: process_file_with_write_fails reads_of_append same_tree_def)
    next
      case (Inr u)
      then show ?thesis using \<open>fst (read_text q w) = Inr c\<close> False st tr
        by (simp add: process_file_with_written reads_of_append same_tree_def)
    qed
  qed
qed

lemma files_loop_reads:
  assumes pf: "\<And>q w. reads_of (trace (snd (pf q w))) = reads_of (trace w) @ [q] \<and> same_tree w (snd (pf q w))"
  shows "reads_of (trace (snd (files_loop pf fs c t w)))
           = reads_of (trace w) @ filter (\<lambda>f. \<not> contains ''examples'' f) fs
       \<and> snd (fst (files_loop pf fs c t w)) = t + length (filter (\<lambda>f. \<not> contains ''examples'' f) fs)
       \<and> fst (fst (files_loop pf fs c t w)) \<le> c + length (filter (\<lambda>f. \<not> contains ''examples'' f) fs)
       \<and> same_tree w (snd (files_loop pf fs c t w))"
proof (induction fs arbitrary: c t w)
  case Nil
  then show ?case by (simp add: same_tree_refl)
next
  case (Cons f fs)
  show ?case
  proof (cases "contains ''examples'' f")
    case True
    then show ?thesis using Cons.IH [of c t w] by simp
  next
    case False
    obtain r w' where p: "pf f w = (r, w')" by (cases "pf f w")
    have a: "reads_of (trace w') = reads_of (trace w) @ [f]" "same_tree w w'"
      using pf [of f w] p by simp_all
    show ?thesis
      using False p a Cons.IH [of "if r then c + 1 else c" "t + 1" w']
      by (auto simp: same_tree_def)
  qed
qed

lemma langs_loop_reads:
  assumes pf: "\<And>q w. reads_of (trace (snd (pf q w))) = reads_of (trace w) @ [q] \<and> same_tree w (snd (pf q w))"
    and hdr: "\<And>l w. reads_of (trace (hdr l w)) = reads_of (trace w) \<and> same_tree w (hdr l w)"
  shows "reads_of (trace (snd (langs_loop pf hdr ls c t w))) = reads_of (trace w) @ eligible w ls
       \<and> snd (fst (langs_loop pf hdr ls c t w)) = t + length (eligible w ls)
       \<and> fst (fst (langs_loop pf hdr ls c t w)) \<le> c + length (eligible w ls)
       \<and> same_tree w (snd (langs_loop pf hdr ls c t w))"
proof (induction ls arbitrary: c t w)
  case Nil
  then show ?case by (simp add: eligible_def same_tree_refl)
next
  case (Cons l ls)
  let ?lp = "base @ ''/'' @ ''src_'' @ l"
  show ?case
  proof (cases "path_exists w ?lp")
    case False
    then show ?thesis using Cons.IH [of c t w] by (simp add: eligible_def)
  next
    case True
    let ?w1 = "hdr l w"
    let ?fs = "rglob_rs ?w1 ?lp"
    let ?el = "filter (\<lambda>f. \<not> contains ''examples'' f) (rglob_rs w ?lp)"
    obtain c' t' w2 where fl: "files_loop pf ?fs c t ?w1 = ((c', t'), w2)"
      by (metis surj_pair)
    have h: "reads_of (trace ?w1) = reads_of (trace w)" "same_tree w ?w1" using hdr by simp_all
    have fs: "?fs = rglob_rs w ?lp" using h(2) by (rule rglob_rs_same_tree)
    have f: "reads_of (trace w2) = reads_of (trace w) @ ?el" "t' = t + length ?el"
      "c' \<le> c + length ?el" "same_tree w w2"
      using files_loop_reads [of pf ?fs c t ?w1, OF pf] fl h fs
      by (auto intro: same_tree_trans)
    have el: "eligible w2 ls = eligible w ls"
      unfolding eligible_def path_exists_same_tree [OF f(4)] rglob_rs_same_tree [OF f(4)]
      by (rule refl)
    have e2: "eligible w (l # ls) = ?el @ eligible w ls" using True by (simp add: eligible_def)
    show ?thesis
      using True fl f el e2 Cons.IH [of c' t' w2]
      by (auto simp: Let_def intro: same_tree_trans)
  qed
qed


lemma parsers_header_reads:
  "reads_of (trace (parsers_header l w)) = reads_of (trace w) \<and> same_tree w (parsers_header l w)"
  by (simp add: parsers_header_def reads_of_append same_tree_def)

lemma phase2_header_reads:
  "reads_of (trace (phase2_header l w)) = reads_of (trace w) \<and> same_tree w (phase2_header l w)"
  by (simp add: phase2_header_def reads_of_append same_tree_def)

lemma parsers_main_reads:
  "reads_of (trace (snd (parsers_main w))) = reads_of (trace w) @ eligible w parsers_langs
   \<and> snd (fst (parsers_main w)) = length (eligible w parsers_langs)"
proof -
  obtain c t w1 where l: "langs_loop parsers_process_file parsers_header parsers_langs 0 0 w = ((c, t), w1)"
    by (metis surj_pair)
  have "reads_of (trace w1) = reads_of (trace w) @ eligible w parsers_langs \<and> t = length (eligible w parsers_langs)"
    using langs_loop_reads [of parsers_process_file parsers_header parsers_langs 0 0 w] l
    by (simp add: parsers_process_file_def process_file_with_reads parsers_header_reads)
  then show ?thesis using l by (simp add: parsers_main_def reads_of_append)
qed

lemma phase2_main_reads:
  "reads_of (trace (snd (phase2_main w))) = reads_of (trace w) @ eligible w phase2_langs
   \<and> snd (fst (phase2_main w)) = length (eligible w phase2_langs)"
proof -
  obtain c t w1 where l: "langs_loop phase2_process_file phase2_header phase2_langs 0 0 w = ((c, t), w1)"
    by (metis surj_pair)
  have "reads_of (trace w1) = reads_of (trace w) @ eligible w phase2_langs \<and> t = length (eligible w phase2_langs)"
    using langs_loop_reads [of phase2_process_file phase2_header phase2_langs 0 0 w] l
    by (simp add: phase2_process_file_def process_file_with_reads phase2_header_reads)
  then show ?thesis using l by (simp add: phase2_main_def reads_of_append)
qed

text \<open>
  The two scripts with a \<^verbatim>\<open>try\<close>. A failure to read or to write a file ends inside
  \<^verbatim>\<open>process_file\<close>: the path is printed with the message and the function returns
  \<^verbatim>\<open>False\<close>, so the file is counted in the total and not as changed. The batch goes on:
  \<^verbatim>\<open>main\<close> calls \<^verbatim>\<open>read_text\<close> on every eligible path of every existing module, in
  order, whatever fails, and the total is their number.
\<close>

lemma failed_file_is_skipped_and_batch_goes_on:
  "(fst (read_text q w) = Inl e \<longrightarrow>
       parsers_process_file q w
         = (False, py_print (cross @ '' '' @ q @ '': '' @ message e) (emit (Read_text q) w))
     \<and> phase2_process_file q w
         = (False, py_print (cross @ '' '' @ q @ '': '' @ message e) (emit (Read_text q) w)))
   \<and> (fst (read_text q w) = Inr c \<and> refactor_content c \<noteq> c
        \<and> fst (write_text q (refactor_content c) (emit (Read_text q) w)) = Inl e \<longrightarrow>
       parsers_process_file q w
         = (False, py_print (cross @ '' '' @ q @ '': '' @ message e)
              (snd (write_text q (refactor_content c) (emit (Read_text q) w)))))
   \<and> (fst (read_text q w) = Inr c \<and> refactor_content_phase2 c \<noteq> c
        \<and> fst (write_text q (refactor_content_phase2 c) (emit (Read_text q) w)) = Inl e \<longrightarrow>
       phase2_process_file q w
         = (False, py_print (cross @ '' '' @ q @ '': '' @ message e)
              (snd (write_text q (refactor_content_phase2 c) (emit (Read_text q) w)))))
   \<and> reads_of (trace (snd (parsers_main w))) = reads_of (trace w) @ eligible w parsers_langs
   \<and> snd (fst (parsers_main w)) = length (eligible w parsers_langs)
   \<and> reads_of (trace (snd (phase2_main w))) = reads_of (trace w) @ eligible w phase2_langs
   \<and> snd (fst (phase2_main w)) = length (eligible w phase2_langs)"
  using parsers_main_reads [of w] phase2_main_reads [of w]
  by (simp add: parsers_process_file_def phase2_process_file_def process_file_with_read_fails
      process_file_with_write_fails)

text \<open>
  Claim C3 fails for \<^verbatim>\<open>refactor_to_lexeme.py\<close>, whose \<^verbatim>\<open>process_file\<close> has no \<^verbatim>\<open>try\<close>. In a
  module with an unreadable file \<^verbatim>\<open>a.rs\<close> and a readable file \<^verbatim>\<open>b.rs\<close>, \<^verbatim>\<open>main\<close> ends
  with the exception of \<^verbatim>\<open>a.rs\<close> and never reads \<^verbatim>\<open>b.rs\<close>. On the same tree \<^verbatim>\<open>main\<close> of
  the two other scripts reads both files, counts two files and none as changed.
\<close>

theorem lexeme_main_aborts_on_unreadable_file:
  "fst (lexeme_main world_unreadable_first)
     = Inl (OSError (''[Errno 13] Permission denied: ''
                       @ quoted ''/home/user/lumen-lang/src_mini_rust/a.rs''))
   \<and> reads_of (trace (snd (lexeme_main world_unreadable_first)))
       = [''/home/user/lumen-lang/src_mini_rust/a.rs'']
   \<and> reads_of (trace (snd (parsers_main world_unreadable_first)))
       = [''/home/user/lumen-lang/src_mini_rust/a.rs'', ''/home/user/lumen-lang/src_mini_rust/b.rs'']
   \<and> fst (parsers_main world_unreadable_first) = (0, 2)
   \<and> reads_of (trace (snd (phase2_main world_unreadable_first)))
       = [''/home/user/lumen-lang/src_mini_rust/a.rs'', ''/home/user/lumen-lang/src_mini_rust/b.rs'']
   \<and> fst (phase2_main world_unreadable_first) = (0, 2)"
  by code_simp

lemma process_file_with_writes:
  assumes "fst (read_text q w) = Inr c"
  shows "writes_of (trace (snd (process_file_with rf q w)))
           = writes_of (trace w) @ (if rf c \<noteq> c then [(q, rf c)] else [])
       \<and> (fst (process_file_with rf q w)
            \<longleftrightarrow> rf c \<noteq> c \<and> fst (write_text q (rf c) (emit (Read_text q) w)) = Inr ())"
proof (cases "rf c = c")
  case True
  then show ?thesis using assms by (simp add: process_file_with_unchanged writes_of_append)
next
  case False
  show ?thesis
  proof (cases "fst (write_text q (rf c) (emit (Read_text q) w))")
    case (Inl e)
    then show ?thesis using assms False
      by (simp add: process_file_with_write_fails write_text_trace writes_of_append)
  next
    case (Inr u)
    then show ?thesis using assms False
      by (simp add: process_file_with_written write_text_trace writes_of_append)
  qed
qed

lemma lexeme_process_file_writes:
  assumes "fst (read_text q w) = Inr c" "\<not> contains ''examples'' q"
  shows "writes_of (trace (snd (lexeme_process_file q w)))
           = writes_of (trace w) @ (if lexeme_transform c \<noteq> c then [(q, lexeme_transform c)] else [])"
proof -
  have rd: "read_text q w = (Inr c, emit (Read_text q) w)"
    using assms(1) read_text_snd [of q w] by (cases "read_text q w") simp
  show ?thesis
  proof (cases "lexeme_transform c = c")
    case True
    then show ?thesis using rd assms(2) by (simp add: lexeme_process_file_def writes_of_append)
  next
    case False
    obtain r2 w2 where wr: "write_text q (lexeme_transform c) (emit (Read_text q) w) = (r2, w2)"
      by (cases "write_text q (lexeme_transform c) (emit (Read_text q) w)")
    have "trace w2 = trace w @ [Read_text q] @ [Write_text q (lexeme_transform c)]"
      using write_text_trace [of q "lexeme_transform c" "emit (Read_text q) w"] wr by simp
    then show ?thesis using rd assms(2) False wr
      by (cases r2) (simp_all add: lexeme_process_file_def Let_def writes_of_append)
  qed
qed

lemma update_dispatcher_writes:
  assumes "fst (read_text (lp @ ''/'' @ ''src_'' @ ln @ ''.rs'') w) = Inr c"
  shows "writes_of (trace (snd (update_dispatcher lp ln w)))
           = writes_of (trace w) @
             [(lp @ ''/'' @ ''src_'' @ ln @ ''.rs'',
               re_sub lx_pat_register_all
                 [G 1, T (registration (case map_of LANG_LEXEMES ln of Some ls \<Rightarrow> ls | None \<Rightarrow> []))] c)]"
proof -
  let ?d = "lp @ ''/'' @ ''src_'' @ ln @ ''.rs''"
  let ?c = "re_sub lx_pat_register_all
                 [G 1, T (registration (case map_of LANG_LEXEMES ln of Some ls \<Rightarrow> ls | None \<Rightarrow> []))] c"
  have rd: "read_text ?d w = (Inr c, emit (Read_text ?d) w)"
    using assms read_text_snd [of ?d w] by (cases "read_text ?d w") simp
  have ex: "path_exists w ?d" using read_text_Inr [OF assms] by (auto simp: path_exists_def)
  obtain r2 w2 where wr: "write_text ?d ?c (emit (Read_text ?d) w) = (r2, w2)"
    by (cases "write_text ?d ?c (emit (Read_text ?d) w)")
  have "trace w2 = trace w @ [Read_text ?d] @ [Write_text ?d ?c]"
    using write_text_trace [of ?d ?c "emit (Read_text ?d) w"] wr by simp
  then show ?thesis using rd ex wr
    by (cases r2) (simp_all add: update_dispatcher_def Let_def writes_of_append)
qed

text \<open>
  For a file that \<^verbatim>\<open>process_file\<close> of any of the three scripts has read, \<^verbatim>\<open>write_text\<close>
  is called exactly when the transformed text differs from the text read, with the
  transformed text; the flag returned is true exactly when it differs and the write
  succeeds. \<^verbatim>\<open>update_dispatcher\<close> writes whatever it has read and transformed.
\<close>

lemma write_back_iff_text_differs:
  "(fst (read_text q w) = Inr c \<longrightarrow>
       writes_of (trace (snd (parsers_process_file q w)))
         = writes_of (trace w) @ (if refactor_content c \<noteq> c then [(q, refactor_content c)] else [])
     \<and> (fst (parsers_process_file q w)
          \<longleftrightarrow> refactor_content c \<noteq> c
              \<and> fst (write_text q (refactor_content c) (emit (Read_text q) w)) = Inr ())
     \<and> writes_of (trace (snd (phase2_process_file q w)))
         = writes_of (trace w)
           @ (if refactor_content_phase2 c \<noteq> c then [(q, refactor_content_phase2 c)] else [])
     \<and> (fst (phase2_process_file q w)
          \<longleftrightarrow> refactor_content_phase2 c \<noteq> c
              \<and> fst (write_text q (refactor_content_phase2 c) (emit (Read_text q) w)) = Inr ()))
   \<and> (fst (read_text q w) = Inr c \<and> \<not> contains ''examples'' q \<longrightarrow>
       writes_of (trace (snd (lexeme_process_file q w)))
         = writes_of (trace w) @ (if lexeme_transform c \<noteq> c then [(q, lexeme_transform c)] else []))
   \<and> (fst (read_text (lp @ ''/'' @ ''src_'' @ ln @ ''.rs'') w) = Inr c' \<longrightarrow>
       writes_of (trace (snd (update_dispatcher lp ln w)))
         = writes_of (trace w) @
           [(lp @ ''/'' @ ''src_'' @ ln @ ''.rs'',
             re_sub lx_pat_register_all
               [G 1, T (registration (case map_of LANG_LEXEMES ln of Some ls \<Rightarrow> ls | None \<Rightarrow> []))] c')])"
  using process_file_with_writes [of q w c refactor_content]
    process_file_with_writes [of q w c refactor_content_phase2]
    lexeme_process_file_writes [of q w c] update_dispatcher_writes [of lp ln w c']
  by (simp add: parsers_process_file_def phase2_process_file_def)

lemma refactor_content_plain: "refactor_content ''fn main() {}\<newline>'' = ''fn main() {}\<newline>''"
  by code_simp

lemma refactor_content_phase2_plain: "refactor_content_phase2 ''fn main() {}\<newline>'' = ''fn main() {}\<newline>''"
  by code_simp

lemma lexeme_transform_plain: "lexeme_transform ''fn main() {}\<newline>'' = ''fn main() {}\<newline>''"
  by code_simp

text \<open>
  Claim C2 fails for \<^verbatim>\<open>update_dispatcher\<close>, which has no change test. A dispatcher file
  without the \<^verbatim>\<open>register_all\<close> anchor is written back with the text it had, and the
  \<^verbatim>\<open>Updated dispatcher\<close> line is printed for it. \<^verbatim>\<open>process_file\<close> of the same script, on
  the same file, writes nothing.
\<close>

theorem update_dispatcher_writes_unchanged_text:
  "fst (read_text ''/home/user/lumen-lang/src_mini_c/src_mini_c.rs'' world_plain_dispatcher)
     = Inr ''fn main() {}\<newline>''
   \<and> writes_of (trace (snd (update_dispatcher ''/home/user/lumen-lang/src_mini_c'' ''mini_c''
         world_plain_dispatcher)))
       = [(''/home/user/lumen-lang/src_mini_c/src_mini_c.rs'', ''fn main() {}\<newline>'')]
   \<and> trace (snd (update_dispatcher ''/home/user/lumen-lang/src_mini_c'' ''mini_c''
         world_plain_dispatcher))
       = [Read_text ''/home/user/lumen-lang/src_mini_c/src_mini_c.rs'',
          Write_text ''/home/user/lumen-lang/src_mini_c/src_mini_c.rs'' ''fn main() {}\<newline>'',
          Print ''Updated dispatcher: /home/user/lumen-lang/src_mini_c/src_mini_c.rs'']
   \<and> writes_of (trace (snd (lexeme_process_file ''/home/user/lumen-lang/src_mini_c/src_mini_c.rs''
         world_plain_dispatcher))) = []"
  by code_simp

section \<open>The matcher against the language of a pattern\<close>

lemma strip_None_iff: "strip l s = None \<longleftrightarrow> (\<forall>r. s \<noteq> l @ r)"
  by (metis not_Some_eq strip_Some_iff)

lemma first_some_Some: "first_some f xs = Some y \<Longrightarrow> \<exists>x \<in> set xs. f x = Some y"
  by (induction xs) (auto split: option.splits)

lemma first_some_None_iff: "first_some f xs = None \<longleftrightarrow> (\<forall>x \<in> set xs. f x = None)"
  by (induction xs) (auto split: option.splits)

lemma greedy_set: "x \<in> set (greedy c s) \<longleftrightarrow> (\<exists>k. s = k @ x \<and> list_all c k)"
proof (induction s)
  case Nil
  then show ?case by auto
next
  case (Cons a s)
  show ?case
  proof (cases "c a")
    case True
    have "(\<exists>k. a # s = k @ x \<and> list_all c k) \<longleftrightarrow> (x = a # s \<or> (\<exists>k. s = k @ x \<and> list_all c k))"
    proof
      assume "\<exists>k. a # s = k @ x \<and> list_all c k"
      then obtain k where k: "a # s = k @ x" "list_all c k" by blast
      show "x = a # s \<or> (\<exists>k. s = k @ x \<and> list_all c k)"
      proof (cases k)
        case Nil
        then show ?thesis using k by simp
      next
        case (Cons b k')
        then have "s = k' @ x" "list_all c k'" using k by simp_all
        then show ?thesis by blast
      qed
    next
      assume "x = a # s \<or> (\<exists>k. s = k @ x \<and> list_all c k)"
      then show "\<exists>k. a # s = k @ x \<and> list_all c k"
      proof
        assume "x = a # s"
        then have "a # s = [] @ x \<and> list_all c []" by simp
        then show ?thesis by blast
      next
        assume "\<exists>k. s = k @ x \<and> list_all c k"
        then obtain k where "s = k @ x" "list_all c k" by blast
        then have "a # s = (a # k) @ x \<and> list_all c (a # k)" using True by simp
        then show ?thesis by blast
      qed
    qed
    then show ?thesis using True Cons.IH by auto
  next
    case False
    have "(\<exists>k. a # s = k @ x \<and> list_all c k) \<longleftrightarrow> x = a # s"
    proof
      assume "\<exists>k. a # s = k @ x \<and> list_all c k"
      then obtain k where k: "a # s = k @ x" "list_all c k" by blast
      show "x = a # s" using k False by (cases k) auto
    next
      assume "x = a # s"
      then have "a # s = [] @ x \<and> list_all c []" by simp
      then show "\<exists>k. a # s = k @ x \<and> list_all c k" by blast
    qed
    then show ?thesis using False by auto
  qed
qed

lemma greedy_last: "greedy c s \<noteq> [] \<and> last (greedy c s) = s"
  by (induction s) auto

lemma butlast_greedy_set: "x \<in> set (butlast (greedy c s)) \<longleftrightarrow> (\<exists>k. s = k @ x \<and> k \<noteq> [] \<and> list_all c k)"
proof (induction s)
  case Nil
  then show ?case by auto
next
  case (Cons a s)
  show ?case
  proof (cases "c a")
    case True
    have bl: "butlast (greedy c (a # s)) = greedy c s" using True greedy_last [of c s] by simp
    have "(\<exists>k. a # s = k @ x \<and> k \<noteq> [] \<and> list_all c k) \<longleftrightarrow> (\<exists>k. s = k @ x \<and> list_all c k)"
    proof
      assume "\<exists>k. a # s = k @ x \<and> k \<noteq> [] \<and> list_all c k"
      then obtain k where k: "a # s = k @ x" "k \<noteq> []" "list_all c k" by blast
      then obtain k' where "k = a # k'" by (cases k) auto
      then have "s = k' @ x \<and> list_all c k'" using k by simp
      then show "\<exists>k. s = k @ x \<and> list_all c k" by blast
    next
      assume "\<exists>k. s = k @ x \<and> list_all c k"
      then obtain k where "s = k @ x" "list_all c k" by blast
      then have "a # s = (a # k) @ x \<and> a # k \<noteq> [] \<and> list_all c (a # k)" using True by simp
      then show "\<exists>k. a # s = k @ x \<and> k \<noteq> [] \<and> list_all c k" by blast
    qed
    then show ?thesis using bl greedy_set [of x c s] by simp
  next
    case False
    have "\<not> (\<exists>k. a # s = k @ x \<and> k \<noteq> [] \<and> list_all c k)"
    proof
      assume "\<exists>k. a # s = k @ x \<and> k \<noteq> [] \<and> list_all c k"
      then obtain k where k: "a # s = k @ x" "k \<noteq> []" "list_all c k" by blast
      then show False using False by (cases k) auto
    qed
    then show ?thesis using False by simp
  qed
qed

lemma rmatch_sound:
  "rmatch p s g caps = Some (rest, caps') \<Longrightarrow> \<exists>u. s = u @ rest \<and> acc p u"
proof (induction p s g caps arbitrary: rest caps' rule: rmatch.induct)
  case (1 s g caps)
  then show ?case by simp
next
  case (2 l r s g caps)
  then obtain s' where s': "strip l s = Some s'" and m: "rmatch r s' g caps = Some (rest, caps')"
    by (auto split: option.splits)
  from "2.IH" [OF s' m] obtain u where "s' = u @ rest" "acc r u" by blast
  then have "s = (l @ u) @ rest \<and> acc (Lit l # r) (l @ u)" using s' by (auto simp: strip_Some_iff)
  then show ?case by blast
next
  case (3 c r s g caps)
  then obtain s' where s': "s' \<in> set (greedy c s)" and m: "rmatch r s' g caps = Some (rest, caps')"
    using first_some_Some by fastforce
  from s' obtain k where k: "s = k @ s'" "list_all c k" by (auto simp: greedy_set)
  from "3.IH" [OF m] obtain u where "s' = u @ rest" "acc r u" by blast
  then have "s = (k @ u) @ rest \<and> acc (Star c # r) (k @ u)" using k by auto
  then show ?case by blast
next
  case (4 c r s g caps)
  then obtain s' where s': "s' \<in> set (butlast (greedy c s))" and m: "rmatch r s' g caps = Some (rest, caps')"
    using first_some_Some by fastforce
  from s' obtain k where k: "s = k @ s'" "k \<noteq> []" "list_all c k" by (auto simp: butlast_greedy_set)
  from "4.IH" [OF m] obtain u where "s' = u @ rest" "acc r u" by blast
  then have "s = (k @ u) @ rest \<and> acc (Plus c # r) (k @ u)" using k by auto
  then show ?case by blast
next
  case (5 x r s g caps)
  then obtain s' where s': "s' \<in> set (case strip [x] s of Some s' \<Rightarrow> [s', s] | None \<Rightarrow> [s])"
    and m: "rmatch r s' g caps = Some (rest, caps')"
    using first_some_Some by fastforce
  from "5.IH" [OF m] obtain u where u: "s' = u @ rest" "acc r u" by blast
  from s' consider "s' = s" | "strip [x] s = Some s'" by (auto split: option.splits)
  then show ?case
  proof cases
    case 1
    then show ?thesis using u by auto
  next
    case 2
    then have "s = x # s'" by (simp add: strip_Some_iff)
    then have "s = (x # u) @ rest \<and> acc (Opt x # r) (x # u)" using u by simp
    then show ?thesis by blast
  qed
next
  case (6 ls r s g caps)
  then obtain l where l: "l \<in> set ls"
    and m0: "(case strip l s of Some s' \<Rightarrow> rmatch r s' g caps | None \<Rightarrow> None) = Some (rest, caps')"
    using first_some_Some by fastforce
  then obtain s' where s': "strip l s = Some s'" and m: "rmatch r s' g caps = Some (rest, caps')"
    by (auto split: option.splits)
  from "6.IH" [OF s' m] obtain u where "s' = u @ rest" "acc r u" by blast
  then have "s = (l @ u) @ rest \<and> acc (OneOf ls # r) (l @ u)" using s' l by (auto simp: strip_Some_iff)
  then show ?case by blast
next
  case (7 r s g caps)
  then show ?case by simp
next
  case (8 r s g caps)
  then show ?case by simp
qed

lemma rmatch_complete:
  "acc p u \<Longrightarrow> rmatch p (u @ v) g caps \<noteq> None"
proof (induction p arbitrary: u g caps)
  case Nil
  then show ?case by simp
next
  case (Cons a r)
  show ?case
  proof (cases a)
    case (Lit l)
    then obtain u' where u: "u = l @ u'" "acc r u'" using Cons.prems by auto
    then show ?thesis using Lit Cons.IH [OF u(2)] by (simp add: strip_append)
  next
    case (Star c)
    then obtain k u' where u: "u = k @ u'" "list_all c k" "acc r u'" using Cons.prems by auto
    have "u' @ v \<in> set (greedy c (u @ v))" using u by (auto simp: greedy_set)
    moreover have "rmatch r (u' @ v) g caps \<noteq> None" using Cons.IH [OF u(3)] .
    ultimately show ?thesis using Star by (auto simp: first_some_None_iff)
  next
    case (Plus c)
    then obtain k u' where u: "u = k @ u'" "k \<noteq> []" "list_all c k" "acc r u'" using Cons.prems by auto
    have "u' @ v \<in> set (butlast (greedy c (u @ v)))" using u by (auto simp: butlast_greedy_set)
    moreover have "rmatch r (u' @ v) g caps \<noteq> None" using Cons.IH [OF u(4)] .
    ultimately show ?thesis using Plus by (auto simp: first_some_None_iff)
  next
    case (Opt x)
    then consider "acc r u" | u' where "u = x # u'" "acc r u'" using Cons.prems by auto
    then show ?thesis
    proof cases
      case 1
      have "u @ v \<in> set (case strip [x] (u @ v) of Some s' \<Rightarrow> [s', u @ v] | None \<Rightarrow> [u @ v])"
        by (auto split: option.splits)
      moreover have "rmatch r (u @ v) g caps \<noteq> None" using Cons.IH [OF 1] .
      ultimately show ?thesis using Opt by (auto simp: first_some_None_iff)
    next
      case 2
      have "strip [x] (u @ v) = Some (u' @ v)" using 2 by simp
      moreover have "rmatch r (u' @ v) g caps \<noteq> None" using Cons.IH [OF 2(2)] .
      ultimately show ?thesis using Opt by (auto simp: first_some_None_iff)
    qed
  next
    case (OneOf ls)
    then obtain l u' where u: "l \<in> set ls" "u = l @ u'" "acc r u'" using Cons.prems by auto
    have "strip l (u @ v) = Some (u' @ v)" using u by (simp add: strip_append)
    moreover have "rmatch r (u' @ v) g caps \<noteq> None" using Cons.IH [OF u(3)] .
    ultimately have "(case strip l (u @ v) of Some s' \<Rightarrow> rmatch r s' g caps | None \<Rightarrow> None) \<noteq> None"
      by simp
    then have "first_some (\<lambda>l. case strip l (u @ v) of Some s' \<Rightarrow> rmatch r s' g caps | None \<Rightarrow> None) ls \<noteq> None"
      using u(1) unfolding first_some_None_iff by (intro notI) (drule bspec, assumption, simp)
    then show ?thesis using OneOf by simp
  next
    case GOpen
    then show ?thesis using Cons by simp
  next
    case GClose
    then show ?thesis using Cons by simp
  qed
qed

lemma rmatch_None_iff: "rmatch p s g caps = None \<longleftrightarrow> \<not> matches_at p s"
proof
  show "rmatch p s g caps = None \<Longrightarrow> \<not> matches_at p s"
    using rmatch_complete unfolding matches_at_def by blast
next
  show "\<not> matches_at p s \<Longrightarrow> rmatch p s g caps = None"
  proof (rule ccontr)
    assume n: "\<not> matches_at p s" and "rmatch p s g caps \<noteq> None"
    then obtain rest caps' where "rmatch p s g caps = Some (rest, caps')" by auto
    then obtain u where "s = u @ rest" "acc p u" using rmatch_sound by blast
    then show False using n unfolding matches_at_def by blast
  qed
qed


lemma contains_mono: "contains L x \<Longrightarrow> contains L (a @ x @ b)"
proof -
  assume "contains L x"
  then obtain c d where "x = c @ L @ d" using contains_iff by blast
  then have "a @ x @ b = (a @ c) @ L @ (d @ b)" by simp
  then show ?thesis using contains_iff by blast
qed

lemma anchored_acc: "anchored L p \<Longrightarrow> acc p u \<Longrightarrow> contains L u"
proof (induction p arbitrary: u)
  case Nil
  then show ?case by simp
next
  case (Cons a r)
  have step: "contains L (k @ u')" if "anchored L r" "acc r u'" for k u'
    using Cons.IH [OF that] contains_mono [of L u' k "[]"] by simp
  show ?case
  proof (cases a)
    case (Lit l)
    then obtain u' where u: "u = l @ u'" "acc r u'" using Cons.prems by auto
    show ?thesis
    proof (cases "contains L l")
      case True
      then show ?thesis using u contains_mono [of L l "[]" u'] by simp
    next
      case False
      then show ?thesis using Lit Cons.prems u step by simp
    qed
  next
    case (Star c)
    then show ?thesis using Cons.prems step by auto
  next
    case (Plus c)
    then show ?thesis using Cons.prems step by auto
  next
    case (Opt x)
    then show ?thesis using Cons.prems step [of _ "[]"] step [of _ "[x]"] by auto
  next
    case (OneOf ls)
    then show ?thesis using Cons.prems step by auto
  next
    case GOpen
    then show ?thesis using Cons.prems step [of _ "[]"] by auto
  next
    case GClose
    then show ?thesis using Cons.prems step [of _ "[]"] by auto
  qed
qed

lemma sub_from_no_match:
  "(\<And>a b. s = a @ b \<Longrightarrow> \<not> matches_at p b) \<Longrightarrow> sub_from p f lim s = s"
proof (induction s arbitrary: lim)
  case Nil
  have "rmatch p [] [] [] = None" using Nil [of "[]" "[]"] by (simp add: rmatch_None_iff)
  then show ?case by (simp add: sub_from.simps)
next
  case (Cons x xs)
  have "rmatch p (x # xs) (x # xs) [] = None" using Cons.prems [of "[]" "x # xs"] by (simp add: rmatch_None_iff)
  moreover have "sub_from p f lim xs = xs"
  proof (rule Cons.IH)
    fix a b assume "xs = a @ b"
    then have "x # xs = (x # a) @ b" by simp
    then show "\<not> matches_at p b" by (rule Cons.prems)
  qed
  ultimately show ?case by (simp add: sub_from.simps [of p f lim "x # xs"])
qed

lemma sub_from_anchor:
  assumes "anchored L p" "\<not> contains L s"
  shows "sub_from p f lim s = s"
proof (rule sub_from_no_match)
  fix a b assume s: "s = a @ b"
  show "\<not> matches_at p b"
  proof
    assume "matches_at p b"
    then obtain u v where "b = u @ v" "acc p u" unfolding matches_at_def by blast
    then have "contains L u" "s = a @ u @ v" using assms(1) anchored_acc s by auto
    then have "contains L s" using contains_mono by blast
    then show False using assms(2) by simp
  qed
qed

lemma re_sub_anchor: "anchored L p \<Longrightarrow> \<not> contains L s \<Longrightarrow> re_sub p t s = s"
  by (simp add: re_sub_def sub_from_anchor)

lemma re_sub_fn_anchor: "anchored L p \<Longrightarrow> \<not> contains L s \<Longrightarrow> re_sub_fn p f s = s"
  by (simp add: re_sub_fn_def sub_from_anchor)

lemma re_sub_count_anchor: "anchored L p \<Longrightarrow> \<not> contains L s \<Longrightarrow> re_sub_count p t s n = s"
  by (simp add: re_sub_count_def sub_from_anchor)

lemma refactor_content_fixpoint:
  assumes "free_of rc_anchors x"
  shows "refactor_content x = x"
proof -
  have a: "\<not> contains ''matches!('' x" "\<not> contains ''parser.advance()'' x"
    "\<not> contains ''parser.peek_n('' x" "\<not> contains ''(Token::Ident(_),'' x"
    "\<not> contains ''use crate::kernel::lexer::Token;'' x" "\<not> contains ''reg.tokens.add_'' x"
    "\<not> contains ''// Register tokens'' x" "\<not> contains ''// Token definitions'' x"
    using assms by (simp_all add: free_of_def rc_anchors_def)
  have r: "re_sub rc_pat1 t x = x" "re_sub rc_pat2 t x = x" "re_sub rc_pat3 t x = x"
    "re_sub rc_pat4 t x = x" "re_sub rc_pat5 t x = x" "re_sub rc_pat6 t x = x" for t
    by (rule re_sub_anchor [OF _ a(1)], simp add: rc_pat1_def rc_pat2_def rc_pat3_def rc_pat4_def rc_pat5_def rc_pat6_def)+
  have r2: "re_sub rc_pat7_ident t x = x" "re_sub rc_pat7_number t x = x" "re_sub rc_pat8 t x = x"
    "re_sub rc_pat9 t x = x" for t
    by (rule re_sub_anchor [OF _ a(2)], simp add: rc_pat7_ident_def rc_pat7_number_def rc_pat8_def rc_pat9_def)+
  have r3: "re_sub rc_pat10 t x = x" for t
    by (rule re_sub_anchor [OF _ a(3)], simp add: rc_pat10_def)
  have r4: "re_sub rc_pat11 t x = x" for t
    by (rule re_sub_anchor [OF _ a(4)], simp add: rc_pat11_def)
  have r5: "remove_token_import x = x" using a(5) by (simp add: remove_token_import_def)
  have r6: "re_sub rc_pat13_keyword t x = x" "re_sub rc_pat13_single_char t x = x"
    "re_sub rc_pat13_two_char t x = x" for t
    by (rule re_sub_anchor [OF _ a(6)], simp add: rc_pat13_keyword_def rc_pat13_single_char_def rc_pat13_two_char_def)+
  have r7: "add_register_comment x x = x" by (simp add: add_register_comment_def)
  have r8: "re_sub rc_pat15_register t x = x" for t
    by (rule re_sub_anchor [OF _ a(7)], simp add: rc_pat15_register_def)
  have r9: "re_sub rc_pat15_definitions t x = x" for t
    by (rule re_sub_anchor [OF _ a(8)], simp add: rc_pat15_definitions_def)
  show ?thesis
    by (simp add: refactor_content_def Let_def r r2 r3 r4 r5 r6 r7 r8 r9)
qed


lemma refactor_token_matches_fixpoint:
  assumes "\<not> contains ''matches!(parser.peek(),'' x" "\<not> contains ''parser.advance()'' x"
    "\<not> contains ''parser.peek_n('' x"
  shows "refactor_token_matches x = x"
proof -
  have r1: "re_sub_fn lx_pat1 f x = x" "re_sub_fn lx_pat2 f x = x" "re_sub_fn lx_pat4 f x = x" for f
    by (rule re_sub_fn_anchor [OF _ assms(1)], simp add: lx_pat1_def lx_pat2_def lx_pat4_def)+
  have r2: "re_sub lx_pat3 t x = x" "re_sub lx_pat5 t x = x" for t
    by (rule re_sub_anchor [OF _ assms(1)], simp add: lx_pat3_def lx_pat5_def)+
  have r3: "re_sub_fn lx_pat6 f x = x" "re_sub_fn lx_pat8 f x = x" for f
    by (rule re_sub_fn_anchor [OF _ assms(2)], simp add: lx_pat6_def lx_pat8_def)+
  have r4: "re_sub lx_pat7 t x = x" for t
    by (rule re_sub_anchor [OF _ assms(2)], simp add: lx_pat7_def)
  have r5: "re_sub_fn lx_pat9 f x = x" for f
    by (rule re_sub_fn_anchor [OF _ assms(3)], simp add: lx_pat9_def)
  show ?thesis by (simp add: refactor_token_matches_def Let_def r1 r2 r3 r4 r5)
qed

lemma remove_token_registration_fixpoint:
  assumes "\<not> contains ''reg.tokens.add_'' x"
  shows "remove_token_registration x = x"
proof -
  have r: "re_sub lx_pat_keyword t x = x" "re_sub lx_pat_single_char t x = x"
    "re_sub lx_pat_two_char t x = x" for t
    by (rule re_sub_anchor [OF _ assms], simp add: lx_pat_keyword_def lx_pat_single_char_def lx_pat_two_char_def)+
  show ?thesis by (simp add: remove_token_registration_def Let_def r)
qed

lemma lexeme_pipeline_fixpoint:
  assumes "free_of lx_anchors x"
  shows "remove_token_registration (refactor_token_matches x) = x"
  using assms
  by (simp add: free_of_def lx_anchors_def refactor_token_matches_fixpoint remove_token_registration_fixpoint)

lemma refactor_content_phase2_fixpoint:
  assumes "free_of p2_anchors x"
  shows "refactor_content_phase2 x = x"
proof -
  have a: "\<not> contains ''parser.advance()'' x" "\<not> contains ''matches!(parser.peek(),'' x"
    "\<not> contains ''Token::Feature('' x"
    using assms by (simp_all add: free_of_def p2_anchors_def)
  have r1: "re_sub p2_pat1 t x = x" "re_sub p2_pat2 t x = x" "re_sub p2_pat3 t x = x" for t
    by (rule re_sub_anchor [OF _ a(1)], simp add: p2_pat1_def p2_pat2_def p2_pat3_def)+
  have r2: "re_sub p2_pat4 t x = x" "re_sub p2_pat5 t x = x" for t
    by (rule re_sub_anchor [OF _ a(2)], simp add: p2_pat4_def p2_pat5_def)+
  have r3: "re_sub p2_pat6 t x = x" "re_sub p2_pat7 t x = x" for t
    by (rule re_sub_anchor [OF _ a(3)], simp add: p2_pat6_def p2_pat7_def)+
  show ?thesis by (simp add: refactor_content_phase2_def Let_def r1 r2 r3)
qed

lemma refactor_content_first_run:
  \<open>refactor_content
     ''use crate::kernel::lexer::Token;\<newline>fn r() {\<newline>    reg.tokens.add_keyword(Token::A);\<newline>}\<newline>''
   = ''use crate::kernel::lexer::Token;\<newline>fn r() {}\<newline>''\<close>
  by code_simp

lemma refactor_content_second_run:
  \<open>refactor_content ''use crate::kernel::lexer::Token;\<newline>fn r() {}\<newline>'' = ''fn r() {}\<newline>''\<close>
  by code_simp

text \<open>
  Claim C1 fails for \<^verbatim>\<open>refactor_content\<close>. Rule 12 looks for \<^verbatim>\<open>Token::\<close> before rule 13
  removes the registration call that holds the last one, so the import of \<^verbatim>\<open>Token\<close>
  survives the first run; the second run finds no \<^verbatim>\<open>Token::\<close> and removes the import.
\<close>

theorem refactor_content_not_idempotent:
  \<open>refactor_content (refactor_content
     ''use crate::kernel::lexer::Token;\<newline>fn r() {\<newline>    reg.tokens.add_keyword(Token::A);\<newline>}\<newline>'')
   \<noteq> refactor_content
     ''use crate::kernel::lexer::Token;\<newline>fn r() {\<newline>    reg.tokens.add_keyword(Token::A);\<newline>}\<newline>''
   \<and> refactor_content
     ''use crate::kernel::lexer::Token;\<newline>fn r() {\<newline>    reg.tokens.add_keyword(Token::A);\<newline>}\<newline>''
     = ''use crate::kernel::lexer::Token;\<newline>fn r() {}\<newline>''
   \<and> refactor_content ''use crate::kernel::lexer::Token;\<newline>fn r() {}\<newline>'' = ''fn r() {}\<newline>''\<close>
  unfolding refactor_content_first_run refactor_content_second_run by simp

lemma set_text_same: "map_of es p = Some (File f) \<Longrightarrow> set_text p (contents f) es = es"
  by (induction es) (auto split: if_splits)

lemma anchored_register_all: "anchored ''pub fn register_all'' lx_pat_register_all"
  by (simp add: lx_pat_register_all_def)

text \<open>
  When the dispatch file of a module is absent, \<^verbatim>\<open>update_dispatcher\<close> returns at once and
  the world is as before. When the file is there, can be read and written, has no
  carriage return and does not contain \<^verbatim>\<open>pub fn register_all\<close>, the pattern matches
  nowhere: the function returns normally, every file has the text it had, and what it has
  done is read the file, write the same text back and print its \<^verbatim>\<open>Updated dispatcher\<close>
  line.
\<close>

lemma update_dispatcher_without_anchor:
  "(\<not> path_exists w (lp @ ''/'' @ ''src_'' @ ln @ ''.rs'') \<longrightarrow> update_dispatcher lp ln w = (Inr (), w))
   \<and> (map_of (entries w) (lp @ ''/'' @ ''src_'' @ ln @ ''.rs'') = Some (File f)
        \<and> read_error f = None \<and> write_error f = None
        \<and> universal_newlines (contents f) = contents f
        \<and> \<not> contains ''pub fn register_all'' (contents f) \<longrightarrow>
       fst (update_dispatcher lp ln w) = Inr ()
       \<and> entries (snd (update_dispatcher lp ln w)) = entries w
       \<and> trace (snd (update_dispatcher lp ln w))
           = trace w @ [Read_text (lp @ ''/'' @ ''src_'' @ ln @ ''.rs''),
                        Write_text (lp @ ''/'' @ ''src_'' @ ln @ ''.rs'') (contents f),
                        Print (''Updated dispatcher: '' @ lp @ ''/'' @ ''src_'' @ ln @ ''.rs'')])"
proof -
  let ?d = "lp @ ''/'' @ ''src_'' @ ln @ ''.rs''"
  have absent: "update_dispatcher lp ln w = (Inr (), w)" if "\<not> path_exists w ?d"
    using that by (simp add: update_dispatcher_def Let_def)
  have present: "fst (update_dispatcher lp ln w) = Inr ()
       \<and> entries (snd (update_dispatcher lp ln w)) = entries w
       \<and> trace (snd (update_dispatcher lp ln w))
           = trace w @ [Read_text ?d, Write_text ?d (contents f), Print (''Updated dispatcher: '' @ ?d)]"
    if f: "map_of (entries w) ?d = Some (File f)" "read_error f = None" "write_error f = None"
      and lf: "universal_newlines (contents f) = contents f"
      and na: "\<not> contains ''pub fn register_all'' (contents f)"
  proof -
    have ex: "path_exists w ?d" using f(1) by (simp add: path_exists_def)
    have rd: "read_text ?d w = (Inr (contents f), emit (Read_text ?d) w)"
      using f lf by (simp add: read_text_def)
    have sub: "re_sub lx_pat_register_all t (contents f) = contents f" for t
      by (rule re_sub_anchor [OF anchored_register_all na])
    have wr: "write_text ?d (contents f) (emit (Read_text ?d) w)
        = (Inr (), emit (Write_text ?d (contents f)) (emit (Read_text ?d) w))"
      using f set_text_same [OF f(1)] by (simp add: write_text_def emit_def)
    show ?thesis
      using ex rd sub wr by (simp add: update_dispatcher_def Let_def py_print_def emit_def)
  qed
  show ?thesis using absent present by blast
qed

text \<open>
  Claim C9 fails when the dispatch file has no \<^verbatim>\<open>register_all\<close> anchor and cannot be
  written, or has Windows line ends: \<^verbatim>\<open>update_dispatcher\<close> writes the file back without
  a change test and outside any \<^verbatim>\<open>try\<close>. For the read-only file it ends with the
  exception of \<^verbatim>\<open>write_text\<close>; the file with \<^verbatim>\<open>\r\n\<close> it leaves with \<^verbatim>\<open>\n\<close>.
\<close>

theorem update_dispatcher_missing_anchor_not_a_noop:
  "\<not> contains ''pub fn register_all'' ''fn main() {}\<newline>''
   \<and> fst (update_dispatcher ''/home/user/lumen-lang/src_mini_c'' ''mini_c'' world_read_only_dispatcher)
       = Inl (OSError (''[Errno 13] Permission denied: ''
                         @ quoted ''/home/user/lumen-lang/src_mini_c/src_mini_c.rs''))
   \<and> map_of (entries world_crlf_dispatcher) ''/home/user/lumen-lang/src_mini_c/src_mini_c.rs''
       = Some (File \<lparr>contents = ''fn main() {}'' @ [CHR 0x0D, CHR 0x0A], read_error = None,
                      write_error = None\<rparr>)
   \<and> fst (update_dispatcher ''/home/user/lumen-lang/src_mini_c'' ''mini_c'' world_crlf_dispatcher)
       = Inr ()
   \<and> map_of (entries (snd (update_dispatcher ''/home/user/lumen-lang/src_mini_c'' ''mini_c''
         world_crlf_dispatcher))) ''/home/user/lumen-lang/src_mini_c/src_mini_c.rs''
       = Some (File \<lparr>contents = ''fn main() {}\<newline>'', read_error = None, write_error = None\<rparr>)"
  by code_simp

section \<open>A rule whose replacement no match can touch is done after one pass\<close>

lemma clash_append: "clash l y \<Longrightarrow> l @ x \<noteq> y @ z"
  by (induction l y rule: clash.induct) (auto split: if_splits)

lemma tails_ne_set: "b \<in> set (tails_ne y) \<longleftrightarrow> (b \<noteq> [] \<and> (\<exists>a. y = a @ b))"
proof (induction y)
  case Nil
  then show ?case by simp
next
  case (Cons x xs)
  have "(\<exists>a. x # xs = a @ b) \<longleftrightarrow> (b = x # xs \<or> (\<exists>a. xs = a @ b))"
    by (auto simp: Cons_eq_append_conv)
  then show ?case using Cons.IH by auto
qed


lemma append_split_cases:
  assumes "c @ y = l @ t"
  obtains w where "c = l @ w" "w @ y = t" | w where "l = c @ w" "w \<noteq> []" "y = w @ t"
proof -
  from assms obtain us where "c = l @ us \<and> us @ y = t \<or> c @ us = l \<and> y = us @ t"
    by (auto simp: append_eq_append_conv2)
  then show ?thesis
  proof (elim disjE conjE)
    assume "c = l @ us" "us @ y = t"
    then show ?thesis by (rule that(1))
  next
    assume a: "c @ us = l" "y = us @ t"
    show ?thesis
    proof (cases "us = []")
      case True
      then have "c = l @ []" "[] @ y = t" using a by simp_all
      then show ?thesis by (rule that(1))
    next
      case False
      then show ?thesis using a that(2) [of us] by simp
    qed
  qed
qed

lemma dead_lit_step:
  assumes "if clash l y then True else (case strip l y of Some y' \<Rightarrow> dead r y' | None \<Rightarrow> False)"
    and ih: "\<And>y u d v. dead r y \<Longrightarrow> acc r u \<Longrightarrow> y @ d \<noteq> u @ v"
    and "acc r u'"
  shows "y @ d \<noteq> (l @ u') @ v"
proof (cases "clash l y")
  case True
  then show ?thesis using clash_append [of l y "u' @ v" d] by auto
next
  case False
  then obtain y' where y': "strip l y = Some y'" "dead r y'"
    using assms(1) by (auto split: option.splits)
  then have "y = l @ y'" by (simp add: strip_Some_iff)
  then show ?thesis using ih [OF y'(2) assms(3), of d v] by simp
qed

lemma dead_sound: "dead p y \<Longrightarrow> acc p u \<Longrightarrow> y @ d \<noteq> u @ v"
proof (induction p arbitrary: y u d v)
  case Nil
  then show ?case by simp
next
  case (Cons a r)
  have at_end: False if "dead r []" "acc r u'" for u'
    using Cons.IH [OF that, of "u' @ []" "[]"] by simp
  show ?case
  proof (cases a)
    case (Lit l)
    then obtain u' where u: "u = l @ u'" "acc r u'" using Cons.prems by auto
    have "if clash l y then True else (case strip l y of Some y' \<Rightarrow> dead r y' | None \<Rightarrow> False)"
      using Cons.prems(1) Lit by simp
    then show ?thesis using dead_lit_step [OF _ Cons.IH u(2)] u(1) by blast
  next
    case (Star c)
    then obtain k u' where u: "u = k @ u'" "list_all c k" "acc r u'" using Cons.prems by auto
    have d: "\<And>y'. y' \<in> set (greedy c y) \<Longrightarrow> dead r y'"
      using Cons.prems(1) Star by (simp add: list_all_iff)
    show ?thesis
    proof
      assume "y @ d = u @ v"
      then have "y @ d = k @ (u' @ v)" using u by simp
      then show False
      proof (cases rule: append_split_cases)
        case (1 w)
        then have "w \<in> set (greedy c y)" using u(2) by (auto simp: greedy_set)
        then show False using d Cons.IH [OF _ u(3), of w d v] 1 by auto
      next
        case (2 w)
        then have "list_all c y" using u(2) by simp
        then have "[] \<in> set (greedy c y)" by (auto simp: greedy_set)
        then show False using d at_end u(3) by blast
      qed
    qed
  next
    case (Plus c)
    then obtain k u' where u: "u = k @ u'" "k \<noteq> []" "list_all c k" "acc r u'" using Cons.prems by auto
    have ne: "y \<noteq> []" using Cons.prems(1) Plus by (auto split: if_splits)
    have d: "\<And>y'. y' \<in> set (butlast (greedy c y)) \<Longrightarrow> dead r y'"
      using Cons.prems(1) Plus ne by (simp add: list_all_iff)
    show ?thesis
    proof
      assume "y @ d = u @ v"
      then have "y @ d = k @ (u' @ v)" using u by simp
      then show False
      proof (cases rule: append_split_cases)
        case (1 w)
        then have "w \<in> set (butlast (greedy c y))" using u(2,3) by (auto simp: butlast_greedy_set)
        then show False using d Cons.IH [OF _ u(4), of w d v] 1 by auto
      next
        case (2 w)
        then have "list_all c y" using u(3) by simp
        then have "[] \<in> set (butlast (greedy c y))" using ne by (auto simp: butlast_greedy_set)
        then show False using d at_end u(4) by blast
      qed
    qed
  next
    case (Opt x)
    have d1: "dead r y" and d2: "\<And>y'. strip [x] y = Some y' \<Longrightarrow> dead r y'"
      using Cons.prems(1) Opt by (auto split: if_splits option.splits)
    from Cons.prems(2) Opt consider "acc r u" | u' where "u = x # u'" "acc r u'" by auto
    then show ?thesis
    proof cases
      case 1
      then show ?thesis using Cons.IH [OF d1] by blast
    next
      case 2
      show ?thesis
      proof
        assume e: "y @ d = u @ v"
        show False
        proof (cases y)
          case Nil
          then show False using d1 at_end 2(2) by blast
        next
          case (Cons z zs)
          then have "z = x" "zs @ d = u' @ v" using e 2(1) by simp_all
          moreover have "dead r zs" using d2 [of zs] Cons \<open>z = x\<close> by simp
          ultimately show False using Cons.IH [OF _ 2(2), of zs d v] by simp
        qed
      qed
    qed
  next
    case (OneOf ls)
    then obtain l u' where u: "l \<in> set ls" "u = l @ u'" "acc r u'" using Cons.prems by auto
    have "if clash l y then True else (case strip l y of Some y' \<Rightarrow> dead r y' | None \<Rightarrow> False)"
      using Cons.prems(1) OneOf u(1) by (simp add: list_all_iff)
    then show ?thesis using dead_lit_step [OF _ Cons.IH u(3)] u(2) by blast
  next
    case GOpen
    then show ?thesis using Cons by simp
  next
    case GClose
    then show ?thesis using Cons by simp
  qed
qed


lemma blocked_lit_step:
  assumes tl: "list_all (\<lambda>l'. dead (Lit l' # r) y) (tails_ne l)"
    and ih: "\<forall>u c. acc r u \<longrightarrow> c @ y @ d = u @ v \<longrightarrow> length u \<le> length c"
    and "acc r u'" and e: "c @ y @ d = (l @ u') @ v"
  shows "length (l @ u') \<le> length c"
proof -
  from e have "c @ (y @ d) = l @ (u' @ v)" by simp
  then show ?thesis
  proof (cases rule: append_split_cases)
    case (1 w)
    then show ?thesis using ih assms(3) by simp
  next
    case (2 w)
    then have "w \<in> set (tails_ne l)" by (auto simp: tails_ne_set)
    then have "dead (Lit w # r) y" using tl by (simp add: list_all_iff)
    moreover have "acc (Lit w # r) (w @ u')" using assms(3) by simp
    ultimately have "y @ d \<noteq> (w @ u') @ v" by (rule dead_sound)
    then show ?thesis using 2 by simp
  qed
qed

lemma blocked_run_step:
  assumes y: "y = x # xs" "\<not> cl x"
    and ih: "\<forall>u c. acc r u \<longrightarrow> c @ y @ d = u @ v \<longrightarrow> length u \<le> length c"
    and "acc r u'" "list_all cl k" and e: "c @ y @ d = (k @ u') @ v"
  shows "length (k @ u') \<le> length c"
proof -
  from e have "c @ (y @ d) = k @ (u' @ v)" by simp
  then show ?thesis
  proof (cases rule: append_split_cases)
    case (1 w)
    then show ?thesis using ih assms(4) by simp
  next
    case (2 w)
    then obtain z zs where "w = z # zs" by (cases w) auto
    then have "z = x" "cl z" using 2 y(1) assms(5) by auto
    then show ?thesis using y(2) by simp
  qed
qed

lemma blocked_sound:
  "blocked p y \<Longrightarrow> acc p u \<Longrightarrow> c @ y @ d = u @ v \<Longrightarrow> length u \<le> length c"
proof (induction p arbitrary: u c)
  case Nil
  then show ?case by simp
next
  case (Cons a r)
  have ih: "\<forall>u c. acc r u \<longrightarrow> c @ y @ d = u @ v \<longrightarrow> length u \<le> length c" if "blocked r y"
    using Cons.IH [OF that] by blast
  show ?case
  proof (cases a)
    case (Lit l)
    then obtain u' where u: "u = l @ u'" "acc r u'" using Cons.prems by auto
    have b: "list_all (\<lambda>l'. dead (Lit l' # r) y) (tails_ne l)" "blocked r y"
      using Cons.prems(1) Lit by (auto simp del: dead.simps split: if_splits)
    have "c @ y @ d = (l @ u') @ v" using Cons.prems(3) u(1) by simp
    then show ?thesis using blocked_lit_step [OF b(1) ih [OF b(2)] u(2)] u(1) by simp
  next
    case (Star cl)
    then obtain k u' where u: "u = k @ u'" "list_all cl k" "acc r u'" using Cons.prems by auto
    obtain x xs where y: "y = x # xs" "\<not> cl x" "blocked r y"
      using Cons.prems(1) Star by (cases y) (auto split: if_splits)
    have "c @ y @ d = (k @ u') @ v" using Cons.prems(3) u(1) by simp
    then show ?thesis using blocked_run_step [OF y(1,2) ih [OF y(3)] u(3,2)] u(1) by simp
  next
    case (Plus cl)
    then obtain k u' where u: "u = k @ u'" "list_all cl k" "acc r u'" using Cons.prems by auto
    obtain x xs where y: "y = x # xs" "\<not> cl x" "blocked r y"
      using Cons.prems(1) Plus by (cases y) (auto split: if_splits)
    have "c @ y @ d = (k @ u') @ v" using Cons.prems(3) u(1) by simp
    then show ?thesis using blocked_run_step [OF y(1,2) ih [OF y(3)] u(3,2)] u(1) by simp
  next
    case (Opt x0)
    obtain x xs where y: "y = x # xs" "\<not> (\<lambda>z. z = x0) x" "blocked r y"
      using Cons.prems(1) Opt by (cases y) (auto split: if_splits)
    from Cons.prems(2) Opt consider "acc r u" | u' where "u = [x0] @ u'" "acc r u'" by auto
    then show ?thesis
    proof cases
      case 1
      show ?thesis by (rule Cons.IH [OF y(3) 1 Cons.prems(3)])
    next
      case 2
      have k: "list_all (\<lambda>z. z = x0) [x0]" by simp
      have "c @ y @ d = ([x0] @ u') @ v" using Cons.prems(3) 2(1) by simp
      then show ?thesis using blocked_run_step [OF y(1,2) ih [OF y(3)] 2(2) k] 2(1) by simp
    qed
  next
    case (OneOf ls)
    then obtain l u' where u: "l \<in> set ls" "u = l @ u'" "acc r u'" using Cons.prems by auto
    have b: "list_all (\<lambda>l'. dead (Lit l' # r) y) (tails_ne l)" "blocked r y"
      using Cons.prems(1) OneOf u(1) by (auto simp: list_all_iff simp del: dead.simps split: if_splits)
    have "c @ y @ d = (l @ u') @ v" using Cons.prems(3) u(2) by simp
    then show ?thesis using blocked_lit_step [OF b(1) ih [OF b(2)] u(3)] u(2) by simp
  next
    case GOpen
    then show ?thesis using Cons by simp
  next
    case GClose
    then show ?thesis using Cons by simp
  qed
qed


lemma settled_not_nullable:
  assumes "settled p R"
  shows "\<not> acc p []"
proof
  assume a: "acc p []"
  have "R \<in> set (tails_ne R)" using assms by (auto simp: settled_def tails_ne_set)
  then have "dead p R" using assms by (simp add: settled_def list_all_iff)
  then have "R @ [] \<noteq> [] @ R" using a by (rule dead_sound)
  then show False by simp
qed

lemma settled_context:
  assumes st: "settled p R"
    and pre: "\<forall>a b. pre = a @ b \<and> b \<noteq> [] \<longrightarrow> \<not> matches_at p (b @ u @ rest)"
    and e: "pre @ R = a @ b" and b: "b \<noteq> []"
  shows "\<not> matches_at p (b @ rest)"
proof
  assume "matches_at p (b @ rest)"
  then obtain u' v where m: "b @ rest = u' @ v" "acc p u'" unfolding matches_at_def by blast
  from e show False
  proof (cases rule: append_split_cases)
    case (2 w)
    then have "b \<in> set (tails_ne R)" using b by (auto simp: tails_ne_set)
    then have "dead p b" using st by (simp add: settled_def list_all_iff)
    then have "b @ rest \<noteq> u' @ v" using m(2) by (rule dead_sound)
    then show False using m(1) by simp
  next
    case (1 w)
    show False
    proof (cases "w = []")
      case True
      then have "b \<in> set (tails_ne R)" using 1 b by (auto simp: tails_ne_set)
      then have "dead p b" using st by (simp add: settled_def list_all_iff)
      then have "b @ rest \<noteq> u' @ v" using m(2) by (rule dead_sound)
      then show False using m(1) by simp
    next
      case False
      have e2: "w @ R @ rest = u' @ v" using m(1) 1(2) [symmetric] by simp
      have "blocked p R" using st by (simp add: settled_def)
      then have "length u' \<le> length w" using m(2) e2 by (rule blocked_sound)
      then obtain w2 where w2: "w = u' @ w2"
        using e2 by (metis append_eq_append_conv_if append_take_drop_id)
      then have "w @ u @ rest = u' @ (w2 @ u @ rest)" by simp
      then have "matches_at p (w @ u @ rest)" using m(2) unfolding matches_at_def by blast
      then show False using pre 1 False by blast
    qed
  qed
qed

lemma sub_from_match_free:
  assumes st: "settled p R"
  shows "(\<forall>a b. pre = a @ b \<and> b \<noteq> [] \<longrightarrow> \<not> matches_at p (b @ s))
    \<Longrightarrow> match_free p (pre @ sub_from p (\<lambda>m. R) None s)"
proof (induction s arbitrary: pre rule: length_induct)
  case (1 s)
  note hyp = "1.prems"
  have nn: "\<not> acc p []" using st by (rule settled_not_nullable)
  have ih: "match_free p (pre' @ sub_from p (\<lambda>m. R) None ys)"
    if "length ys < length s" "\<forall>a b. pre' = a @ b \<and> b \<noteq> [] \<longrightarrow> \<not> matches_at p (b @ ys)" for ys pre'
    using "1.IH" that by blast
  show ?case
  proof (cases "rmatch p s s []")
    case None
    then have nm: "\<not> matches_at p s" by (simp add: rmatch_None_iff)
    show ?thesis
    proof (cases s)
      case Nil
      have "\<not> matches_at p b" if "pre = a @ b" for a b
      proof (cases "b = []")
        case True
        then show ?thesis using nn by (simp add: matches_at_def)
      next
        case False
        then show ?thesis using hyp that Nil by auto
      qed
      then show ?thesis using None Nil by (simp add: sub_from.simps match_free_def)
    next
      case (Cons x xs)
      have "\<not> matches_at p (b @ xs)" if "pre @ [x] = a @ b" "b \<noteq> []" for a b
      proof -
        from that obtain b' where b': "b = b' @ [x]" "pre = a @ b'"
          by (metis append_butlast_last_id butlast_append butlast_snoc last_appendR last_snoc)
        show ?thesis
        proof (cases "b' = []")
          case True
          then show ?thesis using nm b' Cons by simp
        next
          case False
          then show ?thesis using hyp b' Cons by auto
        qed
      qed
      then have "match_free p ((pre @ [x]) @ sub_from p (\<lambda>m. R) None xs)"
        using Cons by (intro ih) auto
      then show ?thesis using None Cons by (simp add: sub_from.simps [of p _ None "x # xs"])
    qed
  next
    case (Some res)
    then obtain rest caps where r: "rmatch p s s [] = Some (rest, caps)" by (cases res) auto
    then obtain u where u: "s = u @ rest" "acc p u" using rmatch_sound by blast
    then have "u \<noteq> []" using nn by auto
    then have len: "length rest < length s" using u(1) by simp
    have "\<not> matches_at p (b @ rest)" if "pre @ R = a @ b" "b \<noteq> []" for a b
      using settled_context [OF st _ that, of u rest] hyp u(1) by simp
    then have "match_free p ((pre @ R) @ sub_from p (\<lambda>m. R) None rest)"
      using len by (intro ih) auto
    then show ?thesis using r len by (simp add: sub_from.simps [of p _ None s])
  qed
qed

lemma re_sub_match_free:
  assumes "settled p R"
  shows "match_free p (re_sub p [T R] s)"
proof -
  have "expand [T R] = (\<lambda>m. R)" by (rule ext) simp
  then show ?thesis
    using sub_from_match_free [OF assms, of "[]" s] by (simp add: re_sub_def)
qed

lemma re_sub_after_settled:
  assumes "settled p R"
  shows "re_sub p t (re_sub p [T R] s) = re_sub p [T R] s"
  using re_sub_match_free [OF assms, of s]
  unfolding match_free_def re_sub_def [of p t] by (intro sub_from_no_match) blast

lemma settled_rc_pat6:
  \<open>settled rc_pat6 ''(parser.peek().lexeme == "true" || parser.peek().lexeme == "false")''\<close>
  by code_simp


lemma first_some_append:
  "first_some f (xs @ ys) = (case first_some f xs of Some y \<Rightarrow> Some y | None \<Rightarrow> first_some f ys)"
  by (induction xs) (auto split: option.splits)

lemma first_some_greedy_run:
  assumes "list_all c k" "t = [] \<or> \<not> c (hd t)" "f t = Some z"
  shows "first_some f (greedy c (k @ t)) = Some z"
  using assms(1)
proof (induction k)
  case Nil
  show ?case using assms(2,3) by (cases t) auto
next
  case (Cons a k)
  then show ?case by (simp add: first_some_append)
qed

lemma fwd_nil: "caps' = caps \<Longrightarrow> rmatch [] s g caps = Some (s, caps')"
  by simp

lemma fwd_lit: "rmatch r t g caps = Some z \<Longrightarrow> rmatch (Lit l # r) (l @ t) g caps = Some z"
  by (simp add: strip_append)

lemma fwd_star:
  "list_all c k \<Longrightarrow> t = [] \<or> \<not> c (hd t) \<Longrightarrow> rmatch r t g caps = Some z
   \<Longrightarrow> rmatch (Star c # r) (k @ t) g caps = Some z"
  by (simp add: first_some_greedy_run)

lemma fwd_plus:
  assumes "list_all c k" "k \<noteq> []" "t = [] \<or> \<not> c (hd t)" "rmatch r t g caps = Some z"
  shows "rmatch (Plus c # r) (k @ t) g caps = Some z"
proof -
  obtain a k' where k: "k = a # k'" using assms(2) by (cases k) auto
  then have "butlast (greedy c (k @ t)) = greedy c (k' @ t)"
    using assms(1) greedy_last [of c "k' @ t"] by simp
  moreover have "first_some (\<lambda>s'. rmatch r s' g caps) (greedy c (k' @ t)) = Some z"
    using assms(1,3,4) k by (intro first_some_greedy_run) auto
  ultimately show ?thesis by simp
qed

lemma fwd_opt_present:
  "rmatch r t g caps = Some z \<Longrightarrow> rmatch (Opt x # r) ([x] @ t) g caps = Some z"
  by simp

lemma fwd_opt_absent:
  "t = [] \<or> hd t \<noteq> x \<Longrightarrow> rmatch r t g caps = Some z \<Longrightarrow> rmatch (Opt x # r) t g caps = Some z"
  by (cases t) auto

lemma fwd_gopen: "rmatch r s s caps = Some z \<Longrightarrow> rmatch (GOpen # r) s g caps = Some z"
  by simp

lemma fwd_gclose:
  "rmatch r s g (caps @ [take (length g - length s) g]) = Some z
   \<Longrightarrow> rmatch (GClose # r) s g caps = Some z"
  by simp

lemma sub_from_match:
  assumes "rmatch p s s [] = Some (rest, caps)" "length rest < length s"
  shows "sub_from p f None s = f (Match (take (length s - length rest) s) caps) @ sub_from p f None rest"
  using assms by (simp add: sub_from.simps [of p f None s])

lemma rc_pat6_forward:
  assumes "list_all is_space w1" "list_all is_space w2" "list_all is_space w3"
  shows "rmatch rc_pat6
      (''matches!(parser.peek(),'' @ w1 @ ''Token::Feature(TRUE)'' @ w2 @ ''|'' @ w3
        @ ''Token::Feature(FALSE))'' @ post) g caps = Some (post, caps)"
  unfolding rc_pat6_def
  by (intro fwd_lit fwd_star fwd_nil assms) (simp_all add: is_space_def)


lemma upper_not_space: "is_upper_us c \<Longrightarrow> \<not> is_space c"
  by (auto simp: is_upper_us_def is_space_def)

lemma hd_run: "k \<noteq> [] \<Longrightarrow> list_all c k \<Longrightarrow> c (hd (k @ t))"
  by (cases k) auto

lemma rc_pat9_forward:
  assumes c: "list_all is_upper_us K" "K \<noteq> []"
    and e: "list_all (not_char CHR '')'') E" "E \<noteq> []"
  shows "rmatch rc_pat9
      (''match'' @ '' '' @ ''parser.advance()'' @ '' '' @ ''{'' @ '' '' @ ''Token::Feature(k)'' @ '' ''
        @ ''if'' @ '' '' @ ''k'' @ '' '' @ ''=='' @ '' '' @ K @ '' '' @ ''=>'' @ '' '' @ ''{},''
        @ '' '' @ ''_'' @ '' '' @ ''=>'' @ '' '' @ ''return'' @ '' '' @ ''Err('' @ E @ '')'' @ '',''
        @ '' '' @ ''}'' @ post) g [] = Some (post, [K, E])"
proof -
  have sp: "list_all is_space '' ''" "'' '' \<noteq> []" by (simp_all add: is_space_def)
  have h: "\<not> is_space (hd (K @ t))" for t
    using hd_run [OF c(2,1), of t] upper_not_space by blast
  show ?thesis
    unfolding rc_pat9_def
    by (intro fwd_lit fwd_star fwd_plus fwd_opt_present fwd_gopen fwd_gclose fwd_nil sp c e disjI2 h)
       (simp_all add: is_space_def is_upper_us_def not_char_def)
qed

section \<open>Properties of the rules of \<^verbatim>\<open>refactor_content\<close>\<close>

lemma sub_from_zero: "sub_from p f (Some 0) s = s"
  by (simp add: sub_from.simps)

lemma sub_from_skip:
  "(\<forall>a b. pre = a @ b \<and> b \<noteq> [] \<longrightarrow> \<not> matches_at p (b @ s))
   \<Longrightarrow> sub_from p f lim (pre @ s) = pre @ sub_from p f lim s"
proof (induction pre)
  case Nil
  then show ?case by simp
next
  case (Cons x pre)
  have "\<not> matches_at p ((x # pre) @ s)" using Cons.prems by blast
  then have n: "rmatch p (x # pre @ s) (x # pre @ s) [] = None" by (simp add: rmatch_None_iff)
  have "sub_from p f lim (pre @ s) = pre @ sub_from p f lim s"
  proof (rule Cons.IH, intro allI impI)
    fix a b assume "pre = a @ b \<and> b \<noteq> []"
    then have "x # pre = (x # a) @ b \<and> b \<noteq> []" by simp
    then show "\<not> matches_at p (b @ s)" using Cons.prems by blast
  qed
  then show ?case
    using n by (cases "lim = Some 0") (simp_all add: sub_from.simps [of p f lim "x # pre @ s"] sub_from_zero)
qed

lemma matches_at_Lit: "matches_at [Lit l] t \<longleftrightarrow> (\<exists>v. t = l @ v)"
  by (auto simp: matches_at_def)

lemma lit_first_occurrence:
  assumes "\<not> contains l (pre @ butlast l)" "pre = a @ b" "b \<noteq> []"
  shows "\<not> matches_at [Lit l] (b @ l @ post)"
proof
  assume "matches_at [Lit l] (b @ l @ post)"
  then obtain v where v: "b @ l @ post = l @ v" by (auto simp: matches_at_Lit)
  have ne: "l \<noteq> []" using assms(1) contains_append [of "[]" "pre @ butlast l" "[]"] by auto
  then have l: "l = butlast l @ [last l]" by simp
  have len: "length l \<le> length (b @ butlast l)" using assms(3) by (cases b) auto
  have "take (length l) (b @ l @ post) = take (length l) ((b @ butlast l) @ ([last l] @ post))"
    using l by (metis append.assoc)
  also have "\<dots> = take (length l) (b @ butlast l)" using len by simp
  finally have "take (length l) (b @ butlast l) = l" using v by simp
  then have "b @ butlast l = l @ drop (length l) (b @ butlast l)"
    by (metis append_take_drop_id)
  then have "pre @ butlast l = a @ l @ drop (length l) (b @ butlast l)"
    using assms(2) by simp
  then have "contains l (pre @ butlast l)" using contains_iff by blast
  then show False using assms(1) by simp
qed

lemma re_sub_lit_first:
  assumes "\<not> contains l (pre @ butlast l)" "l \<noteq> []"
  shows "re_sub [Lit l] t (pre @ l @ post) = pre @ expand t (Match l []) @ re_sub [Lit l] t post"
proof -
  have "sub_from [Lit l] (expand t) None (pre @ l @ post)
      = pre @ sub_from [Lit l] (expand t) None (l @ post)"
    using lit_first_occurrence [OF assms(1)] by (intro sub_from_skip) blast
  moreover have "rmatch [Lit l] (l @ post) (l @ post) [] = Some (post, [])"
    by (simp add: strip_append)
  then have "sub_from [Lit l] (expand t) None (l @ post)
      = expand t (Match (take (length (l @ post) - length post) (l @ post)) []) @ sub_from [Lit l] (expand t) None post"
    using assms(2) by (intro sub_from_match) auto
  ultimately show ?thesis by (simp add: re_sub_def)
qed

text \<open>
  Rule 12 of \<^verbatim>\<open>refactor_content\<close> decides by the substring \<^verbatim>\<open>Token::\<close> of the text as it
  is after rules 1 to 11. When the text contains \<^verbatim>\<open>Token::\<close>, the step changes nothing.
  When it does not, the first import line \<^verbatim>\<open>use crate::kernel::lexer::Token;\<close> (with its
  newline) is deleted and the scan goes on behind it.
\<close>

lemma import_removed_by_token_path_test:
  \<open>(contains ''Token::'' c \<longrightarrow> remove_token_import c = c)
   \<and> (\<not> contains ''Token::'' (pre @ ''use crate::kernel::lexer::Token;\<newline>'' @ post)
        \<and> \<not> contains ''use crate::kernel::lexer::Token;\<newline>'' (pre @ ''use crate::kernel::lexer::Token;'')
      \<longrightarrow> remove_token_import (pre @ ''use crate::kernel::lexer::Token;\<newline>'' @ post)
          = pre @ re_sub rc_pat12 [] post)\<close>
proof -
  let ?L = "''use crate::kernel::lexer::Token;\<newline>''"
  have a: "remove_token_import c = c" if "contains ''Token::'' c"
    using that by (simp add: remove_token_import_def)
  have b: "remove_token_import (pre @ ?L @ post) = pre @ re_sub rc_pat12 [] post"
    if n: "\<not> contains ''Token::'' (pre @ ?L @ post)"
      and f: "\<not> contains ?L (pre @ ''use crate::kernel::lexer::Token;'')"
  proof -
    have "contains ''use crate::kernel::lexer::Token;'' (pre @ ''use crate::kernel::lexer::Token;'' @ (''\<newline>'' @ post))"
      by (rule contains_append)
    then have i: "contains ''use crate::kernel::lexer::Token;'' (pre @ ?L @ post)" by simp
    have "\<not> contains ?L (pre @ butlast ?L)" using f by simp
    then have "re_sub [Lit ?L] [] (pre @ ?L @ post) = pre @ expand [] (Match ?L []) @ re_sub [Lit ?L] [] post"
      by (intro re_sub_lit_first) simp_all
    then show ?thesis using n i by (simp add: remove_token_import_def rc_pat12_def)
  qed
  show ?thesis using a b by blast
qed


lemma sub_from_once:
  "sub_from p f (Some (Suc 0)) s \<noteq> s \<Longrightarrow>
   \<exists>pre t rest caps. s = pre @ t \<and> rmatch p t t [] = Some (rest, caps)
     \<and> sub_from p f (Some (Suc 0)) s = pre @ f (Match (take (length t - length rest) t) caps) @ rest"
proof (induction s)
  case Nil
  show ?case
  proof (cases "rmatch p [] [] []")
    case None
    then show ?thesis using Nil by (simp add: sub_from.simps)
  next
    case (Some res)
    then obtain rest caps where r: "rmatch p [] [] [] = Some (rest, caps)" by (cases res) auto
    then have "rest = []" using rmatch_sound by fastforce
    then have "sub_from p f (Some (Suc 0)) [] = [] @ f (Match (take (length ([]::string) - length rest) []) caps) @ rest"
      using r by (simp add: sub_from.simps)
    then show ?thesis using r by blast
  qed
next
  case (Cons x xs)
  show ?case
  proof (cases "rmatch p (x # xs) (x # xs) []")
    case None
    then have e: "sub_from p f (Some (Suc 0)) (x # xs) = x # sub_from p f (Some (Suc 0)) xs"
      by (simp add: sub_from.simps [of p f _ "x # xs"])
    then have "sub_from p f (Some (Suc 0)) xs \<noteq> xs" using Cons.prems by simp
    from Cons.IH [OF this] obtain pre t rest caps where
      "xs = pre @ t" "rmatch p t t [] = Some (rest, caps)"
      "sub_from p f (Some (Suc 0)) xs = pre @ f (Match (take (length t - length rest) t) caps) @ rest"
      by blast
    then have "x # xs = (x # pre) @ t \<and> rmatch p t t [] = Some (rest, caps)
      \<and> sub_from p f (Some (Suc 0)) (x # xs) = (x # pre) @ f (Match (take (length t - length rest) t) caps) @ rest"
      using e by simp
    then show ?thesis by blast
  next
    case (Some res)
    then obtain rest caps where r: "rmatch p (x # xs) (x # xs) [] = Some (rest, caps)" by (cases res) auto
    then obtain u where u: "x # xs = u @ rest" using rmatch_sound by blast
    have "sub_from p f (Some (Suc 0)) (x # xs)
        = [] @ f (Match (take (length (x # xs) - length rest) (x # xs)) caps) @ rest"
    proof (cases "length rest < length (x # xs)")
      case True
      then show ?thesis using r by (simp add: sub_from.simps [of p f _ "x # xs"] sub_from_zero)
    next
      case False
      then have "rest = x # xs" using u by (metis append_eq_conv_conj length_append not_add_less2 self_append_conv2 append_self_conv2 length_greater_0_conv less_add_same_cancel2)
      then show ?thesis using r by (simp add: sub_from.simps [of p f _ "x # xs"] sub_from_zero)
    qed
    then show ?thesis using r by blast
  qed
qed

lemma inv_lit:
  "rmatch (Lit l # r) s g caps = Some z \<Longrightarrow> \<exists>t. s = l @ t \<and> rmatch r t g caps = Some z"
  by (auto simp: strip_Some_iff split: option.splits)

lemma inv_star:
  assumes "rmatch (Star c # r) s g caps = Some z"
  shows "\<exists>k t. s = k @ t \<and> list_all c k \<and> rmatch r t g caps = Some z"
proof -
  from assms obtain t where "t \<in> set (greedy c s)" "rmatch r t g caps = Some z"
    using first_some_Some by fastforce
  then show ?thesis by (auto simp: greedy_set)
qed

lemma rc_pat14_inversion:
  assumes "rmatch rc_pat14 t t [] = Some (rest, caps)"
  shows "\<exists>w1 w2. list_all is_space w1 \<and> list_all is_space w2
     \<and> t = ''pub fn register(reg: &mut Registry)'' @ w1 @ ''{'' @ w2 @ ''\<newline>'' @ rest
     \<and> caps = [''pub fn register(reg: &mut Registry)'' @ w1 @ ''{'' @ w2]"
proof -
  let ?e = "''pub fn register(reg: &mut Registry)''"
  have m0: "rmatch [Lit ?e, ws, Lit ''{'', ws, GClose, Lit ''\<newline>''] t t [] = Some (rest, caps)"
    using assms by (simp add: rc_pat14_def)
  from inv_lit [OF m0] obtain t1 where t1: "t = ?e @ t1"
    and m1: "rmatch [ws, Lit ''{'', ws, GClose, Lit ''\<newline>''] t1 t [] = Some (rest, caps)" by blast
  from inv_star [OF m1] obtain w1 t2 where t2: "t1 = w1 @ t2" "list_all is_space w1"
    and m2: "rmatch [Lit ''{'', ws, GClose, Lit ''\<newline>''] t2 t [] = Some (rest, caps)" by blast
  from inv_lit [OF m2] obtain t3 where t3: "t2 = ''{'' @ t3"
    and m3: "rmatch [ws, GClose, Lit ''\<newline>''] t3 t [] = Some (rest, caps)" by blast
  from inv_star [OF m3] obtain w2 t4 where t4: "t3 = w2 @ t4" "list_all is_space w2"
    and m4: "rmatch [GClose, Lit ''\<newline>''] t4 t [] = Some (rest, caps)" by blast
  from m4 have m5: "rmatch [Lit ''\<newline>''] t4 t [take (length t - length t4) t] = Some (rest, caps)"
    by simp
  from inv_lit [OF m5] obtain t5 where t5: "t4 = ''\<newline>'' @ t5"
    and m6: "rmatch [] t5 t [take (length t - length t4) t] = Some (rest, caps)" by blast
  have r: "rest = t5" "caps = [take (length t - length t4) t]" using m6 by simp_all
  define a where "a = ?e @ w1 @ ''{'' @ w2"
  have shape: "t = a @ t4" using t1 t2 t3 t4 by (simp add: a_def)
  then have "take (length t - length t4) t = a" by simp
  then have "caps = [?e @ w1 @ ''{'' @ w2]" using r(2) by (simp add: a_def)
  moreover have "t = ?e @ w1 @ ''{'' @ w2 @ ''\<newline>'' @ rest" using shape t5 r(1) by (simp add: a_def)
  ultimately show ?thesis using t2(2) t4(2) by blast
qed

text \<open>
  Rule 14 of \<^verbatim>\<open>refactor_content\<close> leaves the text as it is when the text already contains
  \<^verbatim>\<open>// No token registration needed\<close>, when it does not contain the entry point
  \<^verbatim>\<open>pub fn register(reg: &mut Registry)\<close>, or when rules 1 to 13 have not changed the
  input. When it does change the text, it inserts the marker line exactly once, as the
  line behind an entry point that is followed by whitespace, \<^verbatim>\<open>{\<close>, whitespace and a
  newline.
\<close>

lemma marker_comment_insertion:
  \<open>(contains ''// No token registration needed'' c \<longrightarrow> add_register_comment original c = c)
   \<and> (\<not> contains ''pub fn register(reg: &mut Registry)'' c \<longrightarrow> add_register_comment original c = c)
   \<and> (original = c \<longrightarrow> add_register_comment original c = c)
   \<and> (add_register_comment original c \<noteq> c \<longrightarrow>
        (\<exists>pre w1 w2 post. list_all is_space w1 \<and> list_all is_space w2
           \<and> c = pre @ ''pub fn register(reg: &mut Registry)'' @ w1 @ ''{'' @ w2 @ ''\<newline>'' @ post
           \<and> add_register_comment original c
               = pre @ ''pub fn register(reg: &mut Registry)'' @ w1 @ ''{'' @ w2 @ ''\<newline>''
                   @ marker_line @ ''\<newline>'' @ post))\<close>
proof -
  have d: "\<exists>pre w1 w2 post. list_all is_space w1 \<and> list_all is_space w2
           \<and> c = pre @ ''pub fn register(reg: &mut Registry)'' @ w1 @ ''{'' @ w2 @ ''\<newline>'' @ post
           \<and> add_register_comment original c
               = pre @ ''pub fn register(reg: &mut Registry)'' @ w1 @ ''{'' @ w2 @ ''\<newline>''
                   @ marker_line @ ''\<newline>'' @ post"
    if ne: "add_register_comment original c \<noteq> c"
  proof -
    have e: "add_register_comment original c = sub_from rc_pat14 (expand rc_tpl14) (Some (Suc 0)) c"
      using ne by (auto simp: add_register_comment_def re_sub_count_def split: if_splits)
    then have "sub_from rc_pat14 (expand rc_tpl14) (Some (Suc 0)) c \<noteq> c" using ne by simp
    from sub_from_once [OF this] obtain pre t rest caps where
      s: "c = pre @ t" "rmatch rc_pat14 t t [] = Some (rest, caps)"
      "sub_from rc_pat14 (expand rc_tpl14) (Some (Suc 0)) c
         = pre @ expand rc_tpl14 (Match (take (length t - length rest) t) caps) @ rest"
      by blast
    from rc_pat14_inversion [OF s(2)] obtain w1 w2 where
      w: "list_all is_space w1" "list_all is_space w2"
      "t = ''pub fn register(reg: &mut Registry)'' @ w1 @ ''{'' @ w2 @ ''\<newline>'' @ rest"
      "caps = [''pub fn register(reg: &mut Registry)'' @ w1 @ ''{'' @ w2]" by blast
    have "expand rc_tpl14 (Match m caps)
        = (''pub fn register(reg: &mut Registry)'' @ w1 @ ''{'' @ w2) @ ''\<newline>'' @ marker_line @ ''\<newline>''" for m
      using w(4) by (simp add: rc_tpl14_def group_def)
    then have "add_register_comment original c
        = pre @ ''pub fn register(reg: &mut Registry)'' @ w1 @ ''{'' @ w2 @ ''\<newline>'' @ marker_line @ ''\<newline>'' @ rest"
      using e s(3) by simp
    moreover have "c = pre @ ''pub fn register(reg: &mut Registry)'' @ w1 @ ''{'' @ w2 @ ''\<newline>'' @ rest"
      using s(1) w(3) by simp
    ultimately show ?thesis using w(1,2) by blast
  qed
  show ?thesis using d by (auto simp: add_register_comment_def)
qed


lemma refactor_content_marker_after_import_removal:
  \<open>refactor_content
     ''use crate::kernel::lexer::Token;\<newline>pub fn register(reg: &mut Registry) {\<newline>}\<newline>''
   = ''pub fn register(reg: &mut Registry) {\<newline>    // No token registration needed - kernel handles all segmentation\<newline>}\<newline>''\<close>
  by code_simp

lemma refactor_content_marker_missed:
  \<open>refactor_content
     ''pub fn register(reg: &mut Registry) {\<newline>    reg.tokens.add_keyword("let", LET);\<newline>}\<newline>''
   = ''pub fn register(reg: &mut Registry) {}\<newline>''\<close>
  by code_simp

lemma refactor_content_marker_missed_three_calls:
  \<open>refactor_content
     ''pub fn register(reg: &mut Registry) {\<newline>    reg.tokens.add_keyword("let", LET);\<newline>    reg.tokens.add_single_char('+', PLUS);\<newline>    reg.tokens.add_two_char("==", EQ);\<newline>}\<newline>''
   = ''pub fn register(reg: &mut Registry) {}\<newline>''\<close>
  by code_simp

lemma lexeme_transform_marker_missed:
  \<open>lexeme_transform
     ''pub fn register(reg: &mut Registry) {\<newline>    reg.tokens.add_keyword("let", LET);\<newline>    reg.tokens.add_single_char('+', PLUS);\<newline>    reg.tokens.add_two_char("==", EQ);\<newline>}\<newline>''
   = ''pub fn register(reg: &mut Registry) {}\<newline>''\<close>
  by code_simp

text \<open>
  \<^verbatim>\<open>process_file\<close> of \<^verbatim>\<open>refactor_to_lexeme.py\<close> does not look for a marker that is already
  there.
\<close>

lemma lexeme_transform_second_marker:
  \<open>lexeme_transform
     (''pub fn register(reg: &mut Registry) {\<newline>'' @ marker_line @ ''\<newline>reg.tokens.'')
   = ''pub fn register(reg: &mut Registry) {\<newline>'' @ marker_line @ ''\<newline>'' @ marker_line
       @ ''\<newline>reg.tokens.''\<close>
  by code_simp

text \<open>
  Claim C4 fails in both directions. The guard of rule 14 is \<^verbatim>\<open>original != content\<close>, not
  that a registration call was removed: the marker is inserted into a file that never had
  a registration call, because rule 12 has removed an import. And when the calls follow
  the brace of the function, rule 13 takes the newline behind the brace with the first
  call, so rule 14 finds no place for the marker: the function with three registration
  calls becomes \<^verbatim>\<open>{}\<close> with no marker, in \<^verbatim>\<open>refactor_content\<close> and in \<^verbatim>\<open>process_file\<close> of
  \<^verbatim>\<open>refactor_to_lexeme.py\<close> alike.
\<close>

theorem marker_comment_against_removed_calls:
  \<open>\<not> contains ''reg.tokens.''
       ''use crate::kernel::lexer::Token;\<newline>pub fn register(reg: &mut Registry) {\<newline>}\<newline>''
   \<and> refactor_content
       ''use crate::kernel::lexer::Token;\<newline>pub fn register(reg: &mut Registry) {\<newline>}\<newline>''
     = ''pub fn register(reg: &mut Registry) {\<newline>    // No token registration needed - kernel handles all segmentation\<newline>}\<newline>''
   \<and> refactor_content
       ''pub fn register(reg: &mut Registry) {\<newline>    reg.tokens.add_keyword("let", LET);\<newline>    reg.tokens.add_single_char('+', PLUS);\<newline>    reg.tokens.add_two_char("==", EQ);\<newline>}\<newline>''
     = ''pub fn register(reg: &mut Registry) {}\<newline>''
   \<and> lexeme_transform
       ''pub fn register(reg: &mut Registry) {\<newline>    reg.tokens.add_keyword("let", LET);\<newline>    reg.tokens.add_single_char('+', PLUS);\<newline>    reg.tokens.add_two_char("==", EQ);\<newline>}\<newline>''
     = ''pub fn register(reg: &mut Registry) {}\<newline>''\<close>
  unfolding refactor_content_marker_after_import_removal refactor_content_marker_missed_three_calls
    lexeme_transform_marker_missed
  by code_simp

lemma refactor_content_bare_token:
  \<open>refactor_content ''use crate::kernel::lexer::Token;\<newline>fn f(t: Token) {}\<newline>''
   = ''fn f(t: Token) {}\<newline>''\<close>
  by code_simp


text \<open>
  Claim C7 fails both ways. The import is kept although the transformed text refers to
  \<^verbatim>\<open>Token\<close> nowhere else: the last \<^verbatim>\<open>Token::\<close> was in a registration call that rule 13
  removes after rule 12 has looked. And the import is removed although the text still
  uses the type, as \<^verbatim>\<open>t: Token\<close>: rule 12 looks for \<^verbatim>\<open>Token::\<close> only.
\<close>

theorem import_kept_or_removed_against_references:
  \<open>refactor_content
     ''use crate::kernel::lexer::Token;\<newline>fn r() {\<newline>    reg.tokens.add_keyword(Token::A);\<newline>}\<newline>''
     = ''use crate::kernel::lexer::Token;\<newline>fn r() {}\<newline>''
   \<and> refactor_content ''use crate::kernel::lexer::Token;\<newline>fn f(t: Token) {}\<newline>''
     = ''fn f(t: Token) {}\<newline>''\<close>
  using refactor_content_first_run refactor_content_bare_token by simp

lemma re_sub_rc_pat6_Nil: "re_sub rc_pat6 t [] = []"
  by (simp add: re_sub_def sub_from.simps rc_pat6_def)

lemma refactor_content_boolean_scenario:
  \<open>refactor_content ''matches!(parser.peek(), Token::Feature(TRUE) | Token::Feature(FALSE))''
   = ''(parser.peek().lexeme == "true" || parser.peek().lexeme == "false")''\<close>
  by code_simp

text \<open>
  Claim C6. Rule 6 with the lowercase replacement rewrites the alternation, with any
  whitespace where the pattern has \<^verbatim>\<open>\s*\<close> and any text behind it, to the lowercase
  disjunction and goes on with the rest. After it the pattern matches at no place of the
  text, whatever the input was; so the second rule 6, with the uppercase replacement, never
  changes anything. On the claim's input \<^verbatim>\<open>refactor_content\<close> returns the lowercase
  disjunction.
\<close>

theorem boolean_alternation_rewrite:
  \<open>(list_all is_space w1 \<and> list_all is_space w2 \<and> list_all is_space w3 \<longrightarrow>
      re_sub rc_pat6 rc_tpl6_lower
        (''matches!(parser.peek(),'' @ w1 @ ''Token::Feature(TRUE)'' @ w2 @ ''|'' @ w3
           @ ''Token::Feature(FALSE))'' @ post)
      = ''(parser.peek().lexeme == "true" || parser.peek().lexeme == "false")''
          @ re_sub rc_pat6 rc_tpl6_lower post)
   \<and> match_free rc_pat6 (re_sub rc_pat6 rc_tpl6_lower s)
   \<and> re_sub rc_pat6 rc_tpl6_upper (re_sub rc_pat6 rc_tpl6_lower s) = re_sub rc_pat6 rc_tpl6_lower s
   \<and> refactor_content ''matches!(parser.peek(), Token::Feature(TRUE) | Token::Feature(FALSE))''
       = ''(parser.peek().lexeme == "true" || parser.peek().lexeme == "false")''\<close>
proof -
  let ?occ = "''matches!(parser.peek(),'' @ w1 @ ''Token::Feature(TRUE)'' @ w2 @ ''|'' @ w3
           @ ''Token::Feature(FALSE))'' @ post"
  have a: \<open>re_sub rc_pat6 rc_tpl6_lower ?occ
      = ''(parser.peek().lexeme == "true" || parser.peek().lexeme == "false")''
          @ re_sub rc_pat6 rc_tpl6_lower post\<close>
    if w: "list_all is_space w1" "list_all is_space w2" "list_all is_space w3"
  proof -
    have m: "rmatch rc_pat6 ?occ ?occ [] = Some (post, [])" using w by (rule rc_pat6_forward)
    have "sub_from rc_pat6 (expand rc_tpl6_lower) None ?occ
        = expand rc_tpl6_lower (Match (take (length ?occ - length post) ?occ) [])
            @ sub_from rc_pat6 (expand rc_tpl6_lower) None post"
      using m by (rule sub_from_match) simp
    then show ?thesis by (simp add: re_sub_def rc_tpl6_lower_def)
  qed
  have b: "match_free rc_pat6 (re_sub rc_pat6 rc_tpl6_lower s)"
    unfolding rc_tpl6_lower_def by (rule re_sub_match_free [OF settled_rc_pat6])
  have c: "re_sub rc_pat6 rc_tpl6_upper (re_sub rc_pat6 rc_tpl6_lower s) = re_sub rc_pat6 rc_tpl6_lower s"
    unfolding rc_tpl6_lower_def by (rule re_sub_after_settled [OF settled_rc_pat6])
  show ?thesis using a b c refactor_content_boolean_scenario by blast
qed

theorem boolean_alternation_rewrite_witness:
  \<open>list_all is_space '' ''
   \<and> re_sub rc_pat6 rc_tpl6_lower
        ''matches!(parser.peek(), Token::Feature(TRUE) | Token::Feature(FALSE))''
       = ''(parser.peek().lexeme == "true" || parser.peek().lexeme == "false")''
   \<and> re_sub rc_pat6 rc_tpl6_upper
        ''(parser.peek().lexeme == "true" || parser.peek().lexeme == "false")''
       = ''(parser.peek().lexeme == "true" || parser.peek().lexeme == "false")''\<close>
proof -
  have sp: "list_all is_space '' ''" by (simp add: is_space_def)
  have a: \<open>re_sub rc_pat6 rc_tpl6_lower
        ''matches!(parser.peek(), Token::Feature(TRUE) | Token::Feature(FALSE))''
       = ''(parser.peek().lexeme == "true" || parser.peek().lexeme == "false")''\<close>
    using boolean_alternation_rewrite [of "'' ''" "'' ''" "'' ''" "[]"] sp
    by (simp add: re_sub_rc_pat6_Nil)
  have \<open>re_sub rc_pat6 rc_tpl6_upper
      (re_sub rc_pat6 rc_tpl6_lower
        ''matches!(parser.peek(), Token::Feature(TRUE) | Token::Feature(FALSE))'')
     = re_sub rc_pat6 rc_tpl6_lower
        ''matches!(parser.peek(), Token::Feature(TRUE) | Token::Feature(FALSE))''\<close>
    using boolean_alternation_rewrite
      [of "[]" "[]" "[]" "[]" "''matches!(parser.peek(), Token::Feature(TRUE) | Token::Feature(FALSE))''"]
    by blast
  then show ?thesis using sp a by simp
qed

lemma re_sub_rc_pat9_Nil: "re_sub rc_pat9 t [] = []"
  by (simp add: re_sub_def sub_from.simps rc_pat9_def)

lemma refactor_content_expect_scenario:
  \<open>refactor_content
     ''match parser.advance() { Token::Feature(k) if k == LPAREN => {}, _ => return Err(e), }''
   = ''if parser.advance().lexeme != LPAREN { return Err(e); }''\<close>
  by code_simp

text \<open>
  For a constant \<open>K\<close> of one or more characters \<^verbatim>\<open>A-Z\<close> or underscore and an error
  expression \<open>E\<close> of one or more characters other than \<^verbatim>\<open>)\<close>, rule 9 of
  \<^verbatim>\<open>refactor_content\<close> rewrites the consume-and-expect block to the single conditional
  with the same \<open>K\<close> and \<open>E\<close>, and goes on with the text behind it. On the block with
  \<^verbatim>\<open>LPAREN\<close> and \<^verbatim>\<open>e\<close> the whole of \<^verbatim>\<open>refactor_content\<close> returns that conditional.
\<close>

lemma consume_and_expect_rewrite:
  \<open>(list_all is_upper_us K \<and> K \<noteq> [] \<and> list_all (not_char CHR '')'') E \<and> E \<noteq> [] \<longrightarrow>
      re_sub rc_pat9 rc_tpl9
        (''match parser.advance() { Token::Feature(k) if k == '' @ K
           @ '' => {}, _ => return Err('' @ E @ ''), }'' @ post)
      = ''if parser.advance().lexeme != '' @ K @ '' { return Err('' @ E @ ''); }''
          @ re_sub rc_pat9 rc_tpl9 post)
   \<and> refactor_content
        ''match parser.advance() { Token::Feature(k) if k == LPAREN => {}, _ => return Err(e), }''
       = ''if parser.advance().lexeme != LPAREN { return Err(e); }''\<close>
proof -
  let ?s = "''match parser.advance() { Token::Feature(k) if k == '' @ K
           @ '' => {}, _ => return Err('' @ E @ ''), }'' @ post"
  have a: \<open>re_sub rc_pat9 rc_tpl9 ?s
      = ''if parser.advance().lexeme != '' @ K @ '' { return Err('' @ E @ ''); }''
          @ re_sub rc_pat9 rc_tpl9 post\<close>
    if k: "list_all is_upper_us K" "K \<noteq> []" and e: "list_all (not_char CHR '')'') E" "E \<noteq> []"
  proof -
    have "rmatch rc_pat9
      (''match'' @ '' '' @ ''parser.advance()'' @ '' '' @ ''{'' @ '' '' @ ''Token::Feature(k)'' @ '' ''
        @ ''if'' @ '' '' @ ''k'' @ '' '' @ ''=='' @ '' '' @ K @ '' '' @ ''=>'' @ '' '' @ ''{},''
        @ '' '' @ ''_'' @ '' '' @ ''=>'' @ '' '' @ ''return'' @ '' '' @ ''Err('' @ E @ '')'' @ '',''
        @ '' '' @ ''}'' @ post) ?s [] = Some (post, [K, E])"
      using k e by (rule rc_pat9_forward)
    then have m: "rmatch rc_pat9 ?s ?s [] = Some (post, [K, E])" by simp
    have "sub_from rc_pat9 (expand rc_tpl9) None ?s
        = expand rc_tpl9 (Match (take (length ?s - length post) ?s) [K, E])
            @ sub_from rc_pat9 (expand rc_tpl9) None post"
      using m by (rule sub_from_match) simp
    then show ?thesis by (simp add: re_sub_def rc_tpl9_def group_def)
  qed
  show ?thesis using a refactor_content_expect_scenario by blast
qed

lemma refactor_content_expect_call:
  \<open>refactor_content
     ''match parser.advance() { Token::Feature(k) if k == LPAREN => {}, _ => return Err(e()), }''
   = ''match parser.advance() { Token::Feature(k) if k == LPAREN => {}, _ => return Err(e()), }''\<close>
  by code_simp

lemma refactor_content_expect_struct:
  \<open>refactor_content
     ''match parser.advance() { Token::Feature(k) if k == LPAREN => {}, _ => return Err(Error { at: p.pos() }), }''
   = ''if parser.advance().lexeme != LPAREN { return Err(Error { at: p.pos(); }), }''\<close>
  by code_simp

lemma refactor_content_phase2_expect_call:
  \<open>refactor_content_phase2
     ''match parser.advance() { Token::Feature(LPAREN) => {}, _ => return Err(f(x)), }''
   = ''match parser.advance() { _ if parser.peek().lexeme == LPAREN => {}, _ => return Err(f(x)), }''\<close>
  by code_simp

text \<open>
  Claim C8 fails for an error expression that contains a closing parenthesis: the pattern
  takes the expression with \<^verbatim>\<open>[^)]+\<close>. With \<^verbatim>\<open>Err(e())\<close> the block is left as it is. With
  \<^verbatim>\<open>Err(Error { at: p.pos() })\<close> the match ends the expression at the first \<^verbatim>\<open>)\<close> and the
  block at the brace of the struct literal: the conditional comes out with a cut
  expression, and the rest of the block stands behind it. In
  \<^verbatim>\<open>refactor_content_phase2\<close>, for the block with the arm \<^verbatim>\<open>Token::Feature(LPAREN) => {}\<close>
  and \<^verbatim>\<open>Err(f(x))\<close>, rule 3 does not match either, and rule 6 rewrites the arm inside the
  \<^verbatim>\<open>match\<close> that stays.
\<close>

theorem error_expression_with_parenthesis_mishandled:
  \<open>refactor_content
     ''match parser.advance() { Token::Feature(k) if k == LPAREN => {}, _ => return Err(e()), }''
   = ''match parser.advance() { Token::Feature(k) if k == LPAREN => {}, _ => return Err(e()), }''
   \<and> refactor_content
     ''match parser.advance() { Token::Feature(k) if k == LPAREN => {}, _ => return Err(Error { at: p.pos() }), }''
   = ''if parser.advance().lexeme != LPAREN { return Err(Error { at: p.pos(); }), }''
   \<and> refactor_content_phase2
     ''match parser.advance() { Token::Feature(LPAREN) => {}, _ => return Err(f(x)), }''
   = ''match parser.advance() { _ if parser.peek().lexeme == LPAREN => {}, _ => return Err(f(x)), }''\<close>
  unfolding refactor_content_expect_call refactor_content_expect_struct
    refactor_content_phase2_expect_call
  by simp


text \<open>No pattern of the scripts matches the empty text, so every match makes the scan advance.\<close>

lemma rmatch_shorter:
  assumes "\<not> acc p []" "rmatch p s g caps = Some (rest, caps')"
  shows "length rest < length s"
proof -
  from rmatch_sound [OF assms(2)] obtain u where u: "s = u @ rest" "acc p u" by blast
  then have "u \<noteq> []" using assms(1) by auto
  then show ?thesis using u(1) by simp
qed

lemma scripts_patterns_not_nullable:
  "list_all (\<lambda>p. \<not> acc p [])
     [rc_pat1, rc_pat2, rc_pat3, rc_pat4, rc_pat5, rc_pat6, rc_pat7_ident, rc_pat7_number, rc_pat8,
      rc_pat9, rc_pat10, rc_pat11, rc_pat12, rc_pat13_keyword, rc_pat13_single_char,
      rc_pat13_two_char, rc_pat14, rc_pat15_register, rc_pat15_definitions,
      p2_pat1, p2_pat2, p2_pat3, p2_pat4, p2_pat5, p2_pat6, p2_pat7,
      lx_pat1, lx_pat2, lx_pat3, lx_pat4, lx_pat5, lx_pat6, lx_pat_arm, lx_pat7, lx_pat8, lx_pat9,
      lx_pat_keyword, lx_pat_single_char, lx_pat_two_char, lx_pat_register_all, lx_pat_register]"
  by (simp add: rc_pat1_def rc_pat2_def rc_pat3_def rc_pat4_def rc_pat5_def rc_pat6_def
      rc_pat7_ident_def rc_pat7_number_def rc_pat8_def rc_pat9_def rc_pat10_def rc_pat11_def
      rc_pat12_def rc_pat13_keyword_def rc_pat13_single_char_def rc_pat13_two_char_def rc_pat14_def
      rc_pat15_register_def rc_pat15_definitions_def p2_pat1_def p2_pat2_def p2_pat3_def p2_pat4_def
      p2_pat5_def p2_pat6_def p2_pat7_def lx_pat1_def lx_pat2_def lx_pat3_def lx_pat4_def lx_pat5_def
      lx_pat6_def lx_pat_arm_def lx_pat7_def lx_pat8_def lx_pat9_def lx_pat_keyword_def
      lx_pat_single_char_def lx_pat_two_char_def lx_pat_register_all_def lx_pat_register_def)

end
